theory Spec2Isabelle
  imports Main
begin

section \<open>embsh: a shallow embedding of the debug shell core\<close>

text \<open>
  The embedding follows the headers \<^verbatim>\<open>command_registry.hpp\<close>, \<^verbatim>\<open>line_editor.hpp\<close> and
  \<^verbatim>\<open>telnet_server.hpp\<close>. A C \<^verbatim>\<open>char\<close> and a \<^verbatim>\<open>uint8_t\<close> are both a HOL \<^typ>\<open>char\<close>
  (one byte); a \<^verbatim>\<open>char\<close> array is a \<^typ>\<open>string\<close> of the array's length. The
  \<^verbatim>\<open>uint32_t\<close> cursors and counters are \<^typ>\<open>nat\<close>: every increment in the source is
  guarded by a comparison with a small constant, every decrement by a test for zero, and
  the ring indices are results of a modulo, so no operation on them wraps.
\<close>

subsection \<open>Compile-time capacities\<close>

definition EMBSH_MAX_COMMANDS :: nat where "EMBSH_MAX_COMMANDS = 64"
definition EMBSH_MAX_ARGS :: nat where "EMBSH_MAX_ARGS = 32"
definition EMBSH_LINE_BUF_SIZE :: nat where "EMBSH_LINE_BUF_SIZE = 256"
definition EMBSH_HISTORY_SIZE :: nat where "EMBSH_HISTORY_SIZE = 16"

subsection \<open>Error vocabulary (types.hpp)\<close>

datatype ShellError =
    kOk | kRegistryFull | kDuplicateName | kAuthFailed | kPortInUse
  | kAlreadyRunning | kNotRunning | kDeviceOpenFailed | kInvalidArgument

subsection \<open>C strings\<close>

definition NUL :: char where "NUL = CHR 0x00"

text \<open>
  The C string that starts at the head of an array: the bytes before the first NUL. Where
  an array holds no NUL the source would read past it; the model stops at the array's end.
\<close>

definition cstr :: "string \<Rightarrow> string" where
  "cstr buf = takeWhile (\<lambda>c. c \<noteq> NUL) buf"

text \<open>\<^verbatim>\<open>strncmp(a, b, n) == 0\<close> for two C strings given by their contents.\<close>

definition strncmp_eq :: "string \<Rightarrow> string \<Rightarrow> nat \<Rightarrow> bool" where
  "strncmp_eq a b n = (take n a = take n b)"

text \<open>\<^verbatim>\<open>memcpy(dst, src, n)\<close> into the head of \<open>dst\<close>, for \<open>n\<close> within both arrays.\<close>

definition memcpy :: "string \<Rightarrow> string \<Rightarrow> nat \<Rightarrow> string" where
  "memcpy dst src n = take n src @ drop n dst"

text \<open>\<^verbatim>\<open>memmove(&buf[d], &buf[s], n)\<close> inside one array.\<close>

definition memmove :: "string \<Rightarrow> nat \<Rightarrow> nat \<Rightarrow> nat \<Rightarrow> string" where
  "memmove buf d s n = take d buf @ take n (drop s buf) @ drop (d + n) buf"

subsection \<open>ShellSplit: the in-place tokenizer (command_registry.hpp)\<close>

text \<open>
  The buffer \<open>cmd\<close> is the caller's array; \<open>len\<close> is the \<^verbatim>\<open>length\<close> argument, at most the
  array's size (the caller's obligation: the source indexes \<open>cmd\<close> below \<open>len\<close> unchecked).
  A pointer \<^verbatim>\<open>&cmd[i]\<close> stored in \<^verbatim>\<open>argv\<close> is the offset \<open>i\<close>; \<^verbatim>\<open>argv\<close> is the list of
  the offsets stored so far and \<^verbatim>\<open>argc\<close> its length.
\<close>

text \<open>The loop that skips leading whitespace, overwriting it with NUL.\<close>

function skip_ws :: "string \<Rightarrow> nat \<Rightarrow> nat \<Rightarrow> string \<times> nat" where
  "skip_ws cmd len i =
     (if i < len \<and> (cmd ! i = CHR '' '' \<or> cmd ! i = CHR 0x09)
      then skip_ws (cmd[i := NUL]) len (Suc i)
      else (cmd, i))"
  by pat_completeness auto
termination
  by (relation "measure (\<lambda>(cmd, len, i). len - i)") auto

text \<open>
  The loop over a quoted argument: a backslash that is not the last byte is removed by
  moving the rest of the buffer one byte to the left, and \<open>len\<close> drops by one; \<open>i\<close> is not
  advanced in that branch.
\<close>

function scan_quoted :: "string \<Rightarrow> nat \<Rightarrow> nat \<Rightarrow> char \<Rightarrow> string \<times> nat \<times> nat" where
  "scan_quoted cmd len i quote =
     (if i < len \<and> cmd ! i \<noteq> quote
      then (if cmd ! i = CHR 0x5C \<and> i + 1 < len
            then scan_quoted (memmove cmd i (i + 1) (len - i - 1)) (len - 1) i quote
            else scan_quoted cmd len (i + 1) quote)
      else (cmd, len, i))"
  by pat_completeness auto
termination
  by (relation "measure (\<lambda>(cmd, len, i, quote). len - i)") auto

text \<open>The loop over an unquoted argument.\<close>

function scan_unquoted :: "string \<Rightarrow> nat \<Rightarrow> nat \<Rightarrow> nat" where
  "scan_unquoted cmd len i =
     (if i < len \<and> cmd ! i \<noteq> CHR '' '' \<and> cmd ! i \<noteq> CHR 0x09
      then scan_unquoted cmd len (Suc i)
      else i)"
  by pat_completeness auto
termination
  by (relation "measure (\<lambda>(cmd, len, i). len - i)") auto

text \<open>The outer loop. Every iteration that does not leave the loop stores one argument.\<close>

function ShellSplit_loop :: "string \<Rightarrow> nat \<Rightarrow> nat \<Rightarrow> nat list \<Rightarrow> string \<times> nat list" where
  "ShellSplit_loop cmd len i argv =
     (if i < len \<and> length argv < EMBSH_MAX_ARGS then
        (case skip_ws cmd len i of (cmd1, i1) \<Rightarrow>
           if i1 \<ge> len then (cmd1, argv)
           else if cmd1 ! i1 = CHR 0x22 \<or> cmd1 ! i1 = CHR 0x27 then
             (let quote = cmd1 ! i1;
                  cmd2 = cmd1[i1 := NUL];
                  i2 = i1 + 1
              in if i2 \<ge> len then (cmd2, argv)
                 else (case scan_quoted cmd2 len i2 quote of (cmd3, len3, i3) \<Rightarrow>
                         if i3 < len3
                         then ShellSplit_loop (cmd3[i3 := NUL]) len3 (i3 + 1) (argv @ [i2])
                         else ShellSplit_loop cmd3 len3 i3 (argv @ [i2])))
           else ShellSplit_loop cmd1 len (scan_unquoted cmd1 len i1) (argv @ [i1]))
      else (cmd, argv))"
  by pat_completeness auto
termination
  by (relation "measure (\<lambda>(cmd, len, i, argv). EMBSH_MAX_ARGS - length argv)") auto

text \<open>
  \<^verbatim>\<open>ShellSplit(cmd, length, argv)\<close>: the returned \<^verbatim>\<open>int\<close>, the buffer as it is left, and
  the argument offsets.
\<close>

definition ShellSplit :: "string \<Rightarrow> nat \<Rightarrow> int \<times> string \<times> nat list" where
  "ShellSplit cmd len =
     (case ShellSplit_loop cmd len 0 [] of (cmd', argv) \<Rightarrow> (int (length argv), cmd', argv))"

text \<open>The C string an argument pointer designates in the buffer.\<close>

definition arg_str :: "string \<Rightarrow> nat \<Rightarrow> string" where
  "arg_str cmd p = cstr (drop p cmd)"

text \<open>The arguments of a line as the callee reads them: \<^verbatim>\<open>argc\<close> and the strings of \<^verbatim>\<open>argv\<close>.\<close>

definition ShellSplit_args :: "string \<Rightarrow> nat \<Rightarrow> int \<times> string list" where
  "ShellSplit_args cmd len =
     (case ShellSplit cmd len of (argc, cmd', argv) \<Rightarrow> (argc, map (arg_str cmd') argv))"

subsection \<open>Session state (line_editor.hpp)\<close>

datatype WriteFn = TcpWrite | PosixWrite
datatype ReadFn = TcpRead | PosixRead
datatype EscState = kNone | kEsc | kBracket
datatype IacState = kNormal | kIac | kNego | kSub

text \<open>
  The fields of \<^verbatim>\<open>struct Session\<close>, in the source's order; a null function pointer is
  \<^const>\<open>None\<close>. The last two fields are the environment the session talks to: \<open>tx\<close> is
  every byte handed to \<open>write_fn\<close> on \<open>write_fd\<close> so far (the source discards the result of
  the write), and \<open>rx\<close> is the bytes the peer has sent on \<open>read_fd\<close> that are not yet read.
\<close>

record Session =
  read_fd :: int
  write_fd :: int
  write_fn :: "WriteFn option"
  read_fn :: "ReadFn option"
  line_buf :: string
  line_pos :: nat
  history :: "string list"
  hist_count :: nat
  hist_write :: nat
  hist_nav :: nat
  hist_browsing :: bool
  telnet_mode :: bool
  auth_required :: bool
  authenticated :: bool
  auth_attempts :: nat
  auth_user_buf :: string
  auth_user_pos :: nat
  esc_state :: EscState
  iac_state :: IacState
  active :: bool
  tx :: string
  rx :: string

text \<open>\<^verbatim>\<open>editor::FilterIac\<close>: the returned byte is NUL when the input byte was consumed.\<close>

definition FilterIac :: "Session \<Rightarrow> char \<Rightarrow> Session \<times> char" where
  "FilterIac s byte =
     (case iac_state s of
        kNormal \<Rightarrow>
          if byte = CHR 0xFF then (s\<lparr>iac_state := kIac\<rparr>, NUL)
          else (s, byte)
      | kIac \<Rightarrow>
          if (0xFB::nat) \<le> of_char byte \<and> of_char byte \<le> (0xFE::nat)
          then (s\<lparr>iac_state := kNego\<rparr>, NUL)
          else if byte = CHR 0xFA then (s\<lparr>iac_state := kSub\<rparr>, NUL)
          else (s\<lparr>iac_state := kNormal\<rparr>, if byte = CHR 0xFF then CHR 0xFF else NUL)
      | kNego \<Rightarrow> (s\<lparr>iac_state := kNormal\<rparr>, NUL)
      | kSub \<Rightarrow>
          if byte = CHR 0xFF then (s\<lparr>iac_state := kIac\<rparr>, NUL)
          else (s, NUL))"

text \<open>A default-initialised \<^verbatim>\<open>Session\<close>: the member initialisers of the struct.\<close>

definition Session_default :: Session where
  "Session_default =
     \<lparr>read_fd = - 1, write_fd = - 1, write_fn = None, read_fn = None,
      line_buf = replicate EMBSH_LINE_BUF_SIZE NUL, line_pos = 0,
      history = replicate EMBSH_HISTORY_SIZE (replicate EMBSH_LINE_BUF_SIZE NUL),
      hist_count = 0, hist_write = 0, hist_nav = 0, hist_browsing = False,
      telnet_mode = False,
      auth_required = False, authenticated = False, auth_attempts = 0,
      auth_user_buf = replicate 64 NUL, auth_user_pos = 0,
      esc_state = kNone, iac_state = kNormal, active = False,
      tx = [], rx = []\<rparr>"

subsection \<open>Session I/O helpers\<close>

definition CRLF :: string where "CRLF = [CHR 0x0D, CHR 0x0A]"

text \<open>The erase sequence \<^verbatim>\<open>"\b \b"\<close>.\<close>

definition BS_SP_BS :: string where "BS_SP_BS = [CHR 0x08, CHR '' '', CHR 0x08]"

text \<open>
  \<^verbatim>\<open>SessionWrite(s, str)\<close>, with \<open>str\<close> the contents of the C string; a null \<open>str\<close> writes
  nothing, as the empty string does.
\<close>

definition SessionWrite :: "Session \<Rightarrow> string \<Rightarrow> Session" where
  "SessionWrite s str =
     (if write_fn s \<noteq> None \<and> length str > 0 then s\<lparr>tx := tx s @ str\<rparr> else s)"

definition SessionWriteN :: "Session \<Rightarrow> string \<Rightarrow> nat \<Rightarrow> Session" where
  "SessionWriteN s buf len =
     (if write_fn s \<noteq> None \<and> len > 0 then s\<lparr>tx := tx s @ take len buf\<rparr> else s)"

text \<open>
  The peek after a carriage return in telnet mode: \<^verbatim>\<open>recv(read_fd, &next, 1, MSG_PEEK)\<close>
  sees the next pending byte, and a second \<^verbatim>\<open>recv\<close> takes it off the stream when it is a
  line feed or a NUL. With nothing pending the peek does not return 1.
\<close>

definition peek_consume :: "Session \<Rightarrow> Session" where
  "peek_consume s =
     (case rx s of
        [] \<Rightarrow> s
      | next # rest \<Rightarrow> if next = CHR 0x0A \<or> next = NUL then s\<lparr>rx := rest\<rparr> else s)"

subsection \<open>The output router (command_registry.hpp)\<close>

text \<open>
  The thread-local \<^verbatim>\<open>SessionOutput\<close>: a write callback, which acts on the world \<open>'w\<close> the
  sessions live in, and its context pointer. Null pointers are \<^const>\<open>None\<close>.
\<close>

record ('x, 'w) SessionOutput =
  "write" :: "(string \<Rightarrow> 'x option \<Rightarrow> 'w \<Rightarrow> 'w) option"
  write_ctx :: "'x option"

text \<open>
  The C library's \<^verbatim>\<open>vsnprintf(buf, sz, fmt, args)\<close>, by its contract: \<open>formatted\<close> is the
  full expansion of the format (\<^const>\<open>None\<close> for an encoding error). It stores at most
  \<open>sz - 1\<close> bytes and a NUL and returns the length of the full expansion, or a negative
  value. The array is shown with its bytes after the terminator as NUL; they are
  uninitialised in the source and lie behind the terminator.
\<close>

definition vsnprintf :: "nat \<Rightarrow> string option \<Rightarrow> string \<times> int" where
  "vsnprintf sz formatted =
     (case formatted of
        None \<Rightarrow> (replicate sz NUL, - 1)
      | Some txt \<Rightarrow>
          (take (sz - 1) txt @ replicate (sz - length (take (sz - 1) txt)) NUL,
           int (length txt)))"

text \<open>
  \<^verbatim>\<open>ShellPrintf(fmt, ...)\<close>: the returned \<^verbatim>\<open>int\<close> and the world after the call. The callback
  receives the buffer as a C string.
\<close>

definition ShellPrintf :: "('x, 'w) SessionOutput \<Rightarrow> string option \<Rightarrow> 'w \<Rightarrow> int \<times> 'w" where
  "ShellPrintf out formatted w =
     (case write out of
        None \<Rightarrow> (- 1, w)
      | Some wr \<Rightarrow>
          (case vsnprintf 512 formatted of (buf, n) \<Rightarrow>
             if n > 0 then (n, wr (cstr (buf[511 := NUL])) (write_ctx out) w)
             else (n, w)))"

subsection \<open>The command registry (command_registry.hpp)\<close>

text \<open>
  What a command runs in: the session that dispatched it and the thread-local output
  sink. The sink's context is a pointer to that session.
\<close>

datatype SessionRef = ThisSession

type_synonym shell = "Session \<times> (SessionRef, Session) SessionOutput"

text \<open>\<^verbatim>\<open>CmdFn\<close>: \<^verbatim>\<open>int (*)(int argc, char* argv[], void* ctx)\<close>, acting on the shell.\<close>

type_synonym 'c CmdFn = "int \<Rightarrow> string list \<Rightarrow> 'c option \<Rightarrow> shell \<Rightarrow> int \<times> shell"

record 'c CmdEntry =
  name :: string
  desc :: "string option"
  fn :: "'c CmdFn option"
  ctx :: "'c option"

definition CmdEntry_default :: "'c CmdEntry" where
  "CmdEntry_default = \<lparr>name = [], desc = None, fn = None, ctx = None\<rparr>"

text \<open>
  The singleton \<^verbatim>\<open>CommandRegistry\<close>: the array \<^verbatim>\<open>cmds_\<close> of \<open>EMBSH_MAX_COMMANDS\<close> entries
  and \<^verbatim>\<open>count_\<close>. Slots at \<open>count\<close> and above are never read.
\<close>

record 'c CommandRegistry =
  cmds :: "'c CmdEntry list"
  count :: nat


text \<open>The scan \<^verbatim>\<open>for (i = 0; i < count_; ++i) if (strcmp(cmds_[i].name, name) == 0)\<close>.\<close>

fun find_from :: "'c CmdEntry list \<Rightarrow> nat \<Rightarrow> nat \<Rightarrow> string \<Rightarrow> nat option" where
  "find_from cs i 0 nm = None"
| "find_from cs i (Suc k) nm =
     (if name (cs ! i) = nm then Some i else find_from cs (Suc i) k nm)"

definition find_index :: "'c CommandRegistry \<Rightarrow> string \<Rightarrow> nat option" where
  "find_index reg nm = find_from (cmds reg) 0 (count reg) nm"


text \<open>\<^verbatim>\<open>Find(name)\<close>: the entry pointed to, or \<^const>\<open>None\<close> for \<^verbatim>\<open>nullptr\<close>.\<close>

definition Find :: "'c CommandRegistry \<Rightarrow> string \<Rightarrow> 'c CmdEntry option" where
  "Find reg nm = map_option (\<lambda>i. cmds reg ! i) (find_index reg nm)"

text \<open>\<^verbatim>\<open>ForEach(visitor)\<close> visits the first \<open>count\<close> entries in order.\<close>

definition ForEach :: "'c CommandRegistry \<Rightarrow> ('c CmdEntry \<Rightarrow> 'w \<Rightarrow> 'w) \<Rightarrow> 'w \<Rightarrow> 'w" where
  "ForEach reg visitor w = fold visitor (take (count reg) (cmds reg)) w"

text \<open>
  The inner loop of the longest-common-prefix computation,
  \<^verbatim>\<open>while (j < common && first[j] == other[j]) ++j\<close>. The names are C strings: at the end
  of \<open>other\<close> the loop reads its NUL, which differs from the byte of \<open>first\<close>, and stops.
\<close>

function common_len :: "string \<Rightarrow> string \<Rightarrow> nat \<Rightarrow> nat \<Rightarrow> nat" where
  "common_len first other common j =
     (if j < common \<and> j < length first \<and> j < length other \<and> first ! j = other ! j
      then common_len first other common (Suc j)
      else j)"
  by pat_completeness auto
termination
  by (relation "measure (\<lambda>(first, other, common, j). common - j)") auto

text \<open>
  \<^verbatim>\<open>AutoComplete(prefix, out_buf, buf_size)\<close> for non-null pointers: the match count and
  the C string left in \<open>out_buf\<close> (\<^const>\<open>None\<close> when \<open>out_buf\<close> is not written).
\<close>

definition AutoComplete :: "'c CommandRegistry \<Rightarrow> string \<Rightarrow> nat \<Rightarrow> nat \<times> string option" where
  "AutoComplete reg pre buf_size =
     (if buf_size = 0 then (0, None)
      else
        (let prefix_len = length pre;
             match_idx = filter (\<lambda>i. strncmp_eq (name (cmds reg ! i)) pre prefix_len)
                           [0 ..< count reg];
             match_count = length match_idx
         in if match_count = 0 then (0, Some [])
            else if match_count = 1 then
              (let full = name (cmds reg ! (match_idx ! 0));
                   len = length full;
                   n = (if len < buf_size - 1 then len else buf_size - 1)
               in (1, Some (take n full)))
            else
              (let first = name (cmds reg ! (match_idx ! 0));
                   common = fold (\<lambda>m common.
                                common_len first (name (cmds reg ! (match_idx ! m))) common 0)
                              [1 ..< match_count] (length first);
                   n = (if common < buf_size - 1 then common else buf_size - 1)
               in (match_count, Some (take n first)))))"

subsection \<open>The line editor (line_editor.hpp)\<close>

text \<open>\<^verbatim>\<open>editor::PushHistory\<close>.\<close>

definition PushHistory :: "Session \<Rightarrow> Session" where
  "PushHistory s =
     (if line_pos s = 0 then s
      else if hist_count s > 0 \<and>
              cstr (history s ! ((hist_write s + EMBSH_HISTORY_SIZE - 1) mod EMBSH_HISTORY_SIZE))
                = cstr (line_buf s)
      then s
      else
        (let row = (memcpy (history s ! hist_write s) (line_buf s) (line_pos s))
                     [line_pos s := NUL];
             s1 = s\<lparr>history := (history s)[hist_write s := row]\<rparr>;
             s2 = s1\<lparr>hist_write := (hist_write s1 + 1) mod EMBSH_HISTORY_SIZE\<rparr>
         in if hist_count s2 < EMBSH_HISTORY_SIZE
            then s2\<lparr>hist_count := hist_count s2 + 1\<rparr>
            else s2))"

text \<open>The loop \<^verbatim>\<open>for (i = 0; i < s.line_pos; ++i) SessionWrite(s, "\b \b")\<close>.\<close>

definition erase_line :: "Session \<Rightarrow> Session" where
  "erase_line s = ((\<lambda>s'. SessionWrite s' BS_SP_BS) ^^ line_pos s) s"

text \<open>\<^verbatim>\<open>editor::ReplaceLine(s, new_line)\<close>, with \<open>new_line\<close> the array the pointer designates.\<close>

definition ReplaceLine :: "Session \<Rightarrow> string \<Rightarrow> Session" where
  "ReplaceLine s new_line =
     (let s1 = erase_line s;
          len0 = length (cstr new_line);
          len = (if len0 \<ge> EMBSH_LINE_BUF_SIZE then EMBSH_LINE_BUF_SIZE - 1 else len0);
          s2 = s1\<lparr>line_buf := (memcpy (line_buf s1) new_line len)[len := NUL]\<rparr>;
          s3 = s2\<lparr>line_pos := len\<rparr>
      in SessionWriteN s3 (line_buf s3) (line_pos s3))"

text \<open>\<^verbatim>\<open>editor::HistoryUp\<close>. The local \<^verbatim>\<open>oldest\<close> of the source is computed and never used.\<close>

definition HistoryUp :: "Session \<Rightarrow> Session" where
  "HistoryUp s =
     (if hist_count s = 0 then s
      else
        (let s1 = (if \<not> hist_browsing s
                   then s\<lparr>hist_nav := hist_write s, hist_browsing := True\<rparr>
                   else s);
             prev = (hist_nav s1 + EMBSH_HISTORY_SIZE - 1) mod EMBSH_HISTORY_SIZE;
             dist_from_write =
               (hist_write s1 + EMBSH_HISTORY_SIZE - prev) mod EMBSH_HISTORY_SIZE
         in if prev = hist_nav s1 then s1
            else if dist_from_write > hist_count s1 then s1
            else
              (let s2 = s1\<lparr>hist_nav := prev\<rparr>
               in ReplaceLine s2 (history s2 ! hist_nav s2))))"

text \<open>\<^verbatim>\<open>editor::HistoryDown\<close>.\<close>

definition HistoryDown :: "Session \<Rightarrow> Session" where
  "HistoryDown s =
     (if \<not> hist_browsing s then s
      else
        (let next = (hist_nav s + 1) mod EMBSH_HISTORY_SIZE
         in if next = hist_write s then
              (let s1 = erase_line (s\<lparr>hist_browsing := False\<rparr>);
                   s2 = s1\<lparr>line_pos := 0\<rparr>
               in s2\<lparr>line_buf := (line_buf s2)[0 := NUL]\<rparr>)
            else
              (let s1 = s\<lparr>hist_nav := next\<rparr>
               in ReplaceLine s1 (history s1 ! hist_nav s1))))"

text \<open>
  \<^verbatim>\<open>editor::TabComplete\<close>. The local array \<^verbatim>\<open>completion[64]\<close> is zero-initialised, so
  it reads as the empty string where \<^verbatim>\<open>AutoComplete\<close> does not write it.
\<close>

definition TabComplete :: "'c CommandRegistry \<Rightarrow> Session \<Rightarrow> string \<Rightarrow> Session" where
  "TabComplete reg s prompt =
     (let s0 = s\<lparr>line_buf := (line_buf s)[line_pos s := NUL]\<rparr>;
          (matches, outp) = AutoComplete reg (cstr (line_buf s0)) 64;
          completion = (case outp of None \<Rightarrow> [] | Some c \<Rightarrow> c)
      in if matches = 1 then
           (let s1 = erase_line s0;
                comp_len0 = length completion;
                comp_len = (if comp_len0 \<ge> EMBSH_LINE_BUF_SIZE - 2
                            then EMBSH_LINE_BUF_SIZE - 3 else comp_len0);
                s2 = s1\<lparr>line_buf := (memcpy (line_buf s1) completion comp_len)
                                        [comp_len := CHR '' '']\<rparr>;
                s3 = s2\<lparr>line_pos := comp_len + 1\<rparr>;
                s4 = s3\<lparr>line_buf := (line_buf s3)[line_pos s3 := NUL]\<rparr>
            in SessionWriteN s4 (line_buf s4) (line_pos s4))
         else if matches > 1 then
           (let s1 = SessionWrite s0 CRLF;
                s2 = ForEach reg
                       (\<lambda>cmd s'. if strncmp_eq (name cmd) (cstr (line_buf s')) (line_pos s')
                                  then SessionWrite (SessionWrite s' (name cmd)) ''  ''
                                  else s')
                       s1;
                s3 = SessionWrite s2 CRLF;
                s4 = SessionWrite s3 prompt;
                comp_len0 = length completion;
                comp_len = (if comp_len0 \<ge> EMBSH_LINE_BUF_SIZE - 1
                            then EMBSH_LINE_BUF_SIZE - 2 else comp_len0);
                s5 = s4\<lparr>line_buf := memcpy (line_buf s4) completion comp_len\<rparr>;
                s6 = s5\<lparr>line_pos := comp_len\<rparr>;
                s7 = s6\<lparr>line_buf := (line_buf s6)[line_pos s6 := NUL]\<rparr>
            in SessionWriteN s7 (line_buf s7) (line_pos s7))
         else s0)"

text \<open>
  \<^verbatim>\<open>editor::ProcessByte(s, byte, prompt)\<close>: the session after the call and the returned
  \<^verbatim>\<open>bool\<close>. The registry singleton is a parameter.
\<close>

definition ProcessByte ::
  "'c CommandRegistry \<Rightarrow> Session \<Rightarrow> char \<Rightarrow> string \<Rightarrow> Session \<times> bool" where
  "ProcessByte reg s0 byte0 prompt =
     (case (if telnet_mode s0 then FilterIac s0 byte0 else (s0, byte0)) of (s, byte) \<Rightarrow>
        if telnet_mode s0 \<and> byte = NUL then (s, False)
        else
          (case esc_state s of
             kEsc \<Rightarrow>
               if byte = CHR ''['' then (s\<lparr>esc_state := kBracket\<rparr>, False)
               else (s\<lparr>esc_state := kNone\<rparr>, False)
           | kBracket \<Rightarrow>
               (let s1 = s\<lparr>esc_state := kNone\<rparr>
                in if byte = CHR ''A'' then (HistoryUp s1, False)
                   else if byte = CHR ''B'' then (HistoryDown s1, False)
                   else (s1, False))
           | kNone \<Rightarrow>
               if byte = CHR 0x1B then (s\<lparr>esc_state := kEsc\<rparr>, False)
               else if byte = CHR 0x03 then
                 (let s1 = SessionWrite s (''^C'' @ CRLF);
                      s2 = s1\<lparr>line_pos := 0\<rparr>;
                      s3 = s2\<lparr>line_buf := (line_buf s2)[0 := NUL]\<rparr>;
                      s4 = s3\<lparr>hist_browsing := False\<rparr>
                  in (SessionWrite s4 prompt, False))
               else if byte = CHR 0x04 then
                 (if line_pos s = 0
                  then ((SessionWrite s (CRLF @ ''Bye.'' @ CRLF))\<lparr>active := False\<rparr>, False)
                  else (s, False))
               else if byte = CHR 0x7F \<or> byte = CHR 0x08 then
                 (if line_pos s > 0
                  then (SessionWrite (s\<lparr>line_pos := line_pos s - 1\<rparr>) BS_SP_BS, False)
                  else (s, False))
               else if byte = CHR 0x09 then (TabComplete reg s prompt, False)
               else if byte = CHR 0x0D \<or> byte = CHR 0x0A then
                 (let s1 = SessionWrite s CRLF;
                      s2 = (if telnet_mode s1 \<and> byte = CHR 0x0D then peek_consume s1 else s1);
                      s3 = s2\<lparr>line_buf := (line_buf s2)[line_pos s2 := NUL]\<rparr>;
                      s4 = s3\<lparr>hist_browsing := False\<rparr>
                  in if line_pos s4 > 0 then (PushHistory s4, True)
                     else (SessionWrite s4 prompt, False))
               else if line_pos s < EMBSH_LINE_BUF_SIZE - 1 \<and>
                       (0x20::nat) \<le> of_char byte \<and> of_char byte < (0x7F::nat) then
                 (let s1 = s\<lparr>line_buf := (line_buf s)[line_pos s := byte]\<rparr>;
                      s2 = s1\<lparr>line_pos := line_pos s1 + 1\<rparr>
                  in (SessionWriteN s2 [byte] 1, False))
               else (s, False)))"

text \<open>
  \<^verbatim>\<open>editor::ExecuteLine\<close>. The copy \<^verbatim>\<open>cmd_copy\<close> holds the first \<open>line_pos + 1\<close> bytes of
  the line buffer; the rest of that array is uninitialised and lies behind the copied
  terminator. The message buffer \<^verbatim>\<open>msg[160]\<close> holds at most 159 bytes of the message and
  a NUL, and \<^verbatim>\<open>snprintf\<close> returns the untruncated length \<open>n\<close>, which the source hands to
  \<^verbatim>\<open>SessionWriteN\<close> as it is: for a name of more than 140 bytes \<open>n\<close> exceeds 160 and the
  write reads \<open>n\<close> bytes starting at \<open>msg\<close>, past its end. The memory that lies behind
  \<open>msg\<close> in the stack frame is the parameter \<open>behind\<close>. Calling a null callback is
  undefined in the source; the model leaves the session as it is.
\<close>

definition write_adapter :: "string \<Rightarrow> SessionRef option \<Rightarrow> Session \<Rightarrow> Session" where
  "write_adapter str c s = (case c of None \<Rightarrow> s | Some ThisSession \<Rightarrow> SessionWrite s str)"

definition ExecuteLine :: "'c CommandRegistry \<Rightarrow> string \<Rightarrow> shell \<Rightarrow> shell" where
  "ExecuteLine reg behind w =
     (case w of (s, out) \<Rightarrow>
        (let cmd_copy = take (line_pos s + 1) (line_buf s)
         in case ShellSplit cmd_copy (line_pos s) of (argc, cmd', argv) \<Rightarrow>
              if argc \<le> 0 then (s, out)
              else
                (let argv0 = arg_str cmd' (argv ! 0)
                 in if argv0 = ''exit'' \<or> argv0 = ''quit''
                    then ((SessionWrite s (''Bye.'' @ CRLF))\<lparr>active := False\<rparr>, out)
                    else
                      (case Find reg argv0 of
                         Some cmd \<Rightarrow>
                           (let out1 = out\<lparr>write := Some write_adapter,
                                           write_ctx := Some ThisSession\<rparr>;
                                (s2, out2) =
                                  (case fn cmd of
                                     None \<Rightarrow> (s, out1)
                                   | Some f \<Rightarrow> snd (f argc (map (arg_str cmd') argv) (ctx cmd)
                                                      (s, out1)))
                            in (s2, out2\<lparr>write := None, write_ctx := None\<rparr>))
                       | None \<Rightarrow>
                           (let full = ''unknown command: '' @ argv0 @ CRLF;
                                msg = take 159 full @ [NUL];
                                n = length full
                            in if n > 0 then (SessionWriteN s (msg @ behind) n, out)
                               else (s, out))))))"

subsection \<open>Telnet authentication (telnet_server.hpp)\<close>

record ServerConfig =
  port :: nat
  max_sessions :: nat
  prompt :: string
  banner :: "string option"
  username :: "string option"
  password :: "string option"

definition kMaxAttempts :: nat where "kMaxAttempts = 3"

datatype AuthPhase = kUser | kPass

text \<open>The locals of \<^verbatim>\<open>TelnetServer::RunAuth\<close> that live across loop iterations.\<close>

record AuthLocals =
  phase :: AuthPhase
  user_buf :: string
  pass_buf :: string
  buf_pos :: nat

text \<open>
  One iteration of the loop of \<^verbatim>\<open>RunAuth\<close> after a byte has been read: either the loop
  goes on (\<^verbatim>\<open>continue\<close>, or the end of the body) or the function returns. The credentials
  are set whenever \<^verbatim>\<open>RunAuth\<close> runs (\<^verbatim>\<open>auth_required\<close>); \<^verbatim>\<open>strcmp\<close> against a null
  pointer, which the source never does, is shown as a mismatch.
\<close>

datatype AuthStep = Continue AuthLocals Session | Return Session

definition RunAuth_step :: "ServerConfig \<Rightarrow> AuthLocals \<Rightarrow> Session \<Rightarrow> char \<Rightarrow> AuthStep" where
  "RunAuth_step cfg l s0 byte0 =
     (case (if telnet_mode s0 then FilterIac s0 byte0 else (s0, byte0)) of (s, byte) \<Rightarrow>
        if telnet_mode s0 \<and> byte = NUL then Continue l s
        else if byte = CHR 0x7F \<or> byte = CHR 0x08 then
          (if buf_pos l > 0
           then Continue (l\<lparr>buf_pos := buf_pos l - 1\<rparr>) (SessionWrite s BS_SP_BS)
           else Continue l s)
        else if byte = CHR 0x0D \<or> byte = CHR 0x0A then
          (let s1 = (if telnet_mode s \<and> byte = CHR 0x0D then peek_consume s else s);
               s2 = SessionWrite s1 CRLF
           in if phase l = kUser then
                Continue (l\<lparr>user_buf := (user_buf l)[buf_pos l := NUL],
                            phase := kPass, buf_pos := 0\<rparr>)
                         (SessionWrite s2 ''Password: '')
              else
                (let l1 = l\<lparr>pass_buf := (pass_buf l)[buf_pos l := NUL]\<rparr>
                 in if username cfg = Some (cstr (user_buf l1)) \<and>
                       password cfg = Some (cstr (pass_buf l1))
                    then Return (SessionWrite (s2\<lparr>authenticated := True\<rparr>)
                                   (''Login successful.'' @ CRLF))
                    else
                      (let s3 = s2\<lparr>auth_attempts := auth_attempts s2 + 1\<rparr>
                       in if auth_attempts s3 < kMaxAttempts then
                            Continue (l1\<lparr>phase := kUser, buf_pos := 0\<rparr>)
                              (SessionWrite
                                 (SessionWrite s3 (''Invalid credentials. Try again.'' @ CRLF))
                                 ''Username: '')
                          else Continue l1 s3)))
        else if (0x20::nat) \<le> of_char byte \<and> of_char byte < (0x7F::nat) then
          (if phase l = kUser \<and> buf_pos l < 64 - 1 then
             Continue (l\<lparr>user_buf := (user_buf l)[buf_pos l := byte],
                         buf_pos := buf_pos l + 1\<rparr>)
                      (SessionWriteN s [byte] 1)
           else if phase l = kPass \<and> buf_pos l < 64 - 1 then
             Continue (l\<lparr>pass_buf := (pass_buf l)[buf_pos l := byte],
                         buf_pos := buf_pos l + 1\<rparr>)
                      (SessionWrite s ''*'')
           else Continue l s)
        else Continue l s)"

text \<open>An iteration that goes on never adds to the pending input.\<close>

lemma RunAuth_step_rx:
  assumes "RunAuth_step cfg l s0 byte = Continue l' s'"
  shows "length (rx s') \<le> length (rx s0)"
proof -
  have f: "rx (fst (FilterIac t b)) = rx t" for t b
    by (simp add: FilterIac_def split: IacState.splits)
  have p: "length (rx (peek_consume t)) \<le> length (rx t)" for t
    by (simp add: peek_consume_def split: list.splits)
  have w: "rx (SessionWrite t x) = rx t" and wn: "rx (SessionWriteN t x n) = rx t" for t x n
    by (simp_all add: SessionWrite_def SessionWriteN_def)
  obtain t b where tb: "(if telnet_mode s0 then FilterIac s0 byte else (s0, byte)) = (t, b)"
    by (cases "if telnet_mode s0 then FilterIac s0 byte else (s0, byte)") blast
  have t: "rx t = rx s0"
  proof (cases "telnet_mode s0")
    case True
    with tb have "t = fst (FilterIac s0 byte)"
      by simp
    then show ?thesis
      by (simp add: f)
  next
    case False
    with tb show ?thesis
      by auto
  qed
  consider (consumed) "telnet_mode s0 \<and> b = NUL"
    | (backspace) "\<not> (telnet_mode s0 \<and> b = NUL)" "b = CHR 0x7F \<or> b = CHR 0x08"
    | (enter) "\<not> (telnet_mode s0 \<and> b = NUL)" "\<not> (b = CHR 0x7F \<or> b = CHR 0x08)"
        "b = CHR 0x0D \<or> b = CHR 0x0A"
    | (other) "\<not> (telnet_mode s0 \<and> b = NUL)" "\<not> (b = CHR 0x7F \<or> b = CHR 0x08)"
        "\<not> (b = CHR 0x0D \<or> b = CHR 0x0A)"
    by blast
  then have "length (rx s') \<le> length (rx t)"
  proof cases
    case consumed
    with assms show ?thesis
      unfolding RunAuth_step_def tb by (auto split del: if_split)
  next
    case backspace
    with assms show ?thesis
      unfolding RunAuth_step_def tb by (auto simp: w split del: if_split split: if_split_asm)
  next
    case enter
    then have "(case RunAuth_step cfg l s0 byte of
                  Continue l' s' \<Rightarrow> rx s' | Return s' \<Rightarrow> rx s')
               = rx (if telnet_mode t \<and> b = CHR 0x0D then peek_consume t else t)"
      unfolding RunAuth_step_def tb
      by (auto simp: w Let_def)
    with assms have "rx s' = rx (if telnet_mode t \<and> b = CHR 0x0D then peek_consume t else t)"
      by simp
    then show ?thesis
      using p [of t] by (simp split: if_split_asm)
  next
    case other
    with assms show ?thesis
      unfolding RunAuth_step_def tb by (auto simp: w wn split del: if_split split: if_split_asm)
  qed
  with t show ?thesis
    by simp
qed

text \<open>
  The loop of \<^verbatim>\<open>RunAuth\<close>. The bytes the peer sends before it closes the connection are
  \<open>rx\<close>; a \<^verbatim>\<open>poll\<close> that times out repeats the iteration with nothing changed and is not
  shown; \<^verbatim>\<open>read_fn\<close> returning no byte (or a failing \<^verbatim>\<open>poll\<close>) leaves the loop.
\<close>

function RunAuth_loop :: "ServerConfig \<Rightarrow> AuthLocals \<Rightarrow> Session \<Rightarrow> Session" where
  "RunAuth_loop cfg l s =
     (if active s \<and> auth_attempts s < kMaxAttempts then
        (case rx s of
           [] \<Rightarrow> s
         | byte # rest \<Rightarrow>
             (case RunAuth_step cfg l (s\<lparr>rx := rest\<rparr>) byte of
                Continue l' s' \<Rightarrow> RunAuth_loop cfg l' s'
              | Return s' \<Rightarrow> s'))
      else s)"
  by pat_completeness auto
termination
proof (relation "measure (\<lambda>(cfg, l, s). length (rx s))")
  show "wf (measure (\<lambda>(cfg, l, s). length (rx s)))"
    by simp
next
  fix cfg :: ServerConfig and l l' :: AuthLocals and s s' :: Session and byte rest
  assume "rx s = byte # rest"
    and "RunAuth_step cfg l (s\<lparr>rx := rest\<rparr>) byte = Continue l' s'"
  then show "((cfg, l', s'), (cfg, l, s)) \<in> measure (\<lambda>(cfg, l, s). length (rx s))"
    using RunAuth_step_rx [of cfg l "s\<lparr>rx := rest\<rparr>" byte l' s'] by simp
qed

definition AuthLocals_init :: AuthLocals where
  "AuthLocals_init =
     \<lparr>phase = kUser, user_buf = replicate 64 NUL, pass_buf = replicate 64 NUL, buf_pos = 0\<rparr>"

definition RunAuth :: "ServerConfig \<Rightarrow> Session \<Rightarrow> Session" where
  "RunAuth cfg s = RunAuth_loop cfg AuthLocals_init (SessionWrite s ''Username: '')"

subsection \<open>Observers used in the statements below\<close>

text \<open>An output sink whose world is the number of times its callback has run.\<close>

definition counting_sink :: "(unit, nat) SessionOutput" where
  "counting_sink = \<lparr>write = Some (\<lambda>str c n. n + 1), write_ctx = None\<rparr>"

text \<open>
  A registry with one entry, named and described as the built-in \<^verbatim>\<open>help\<close> is. The
  callback of this entry is null: the callback of the built-in lists the registry it is
  stored in, and no statement below runs the callback of an entry.
\<close>

definition help_registry :: "unit CommandRegistry" where
  "help_registry =
     \<lparr>cmds = (replicate EMBSH_MAX_COMMANDS CmdEntry_default)
               [0 := \<lparr>name = ''help'', desc = Some ''List all commands'', fn = None,
                      ctx = None\<rparr>],
      count = 1\<rparr>"


text \<open>A session on a pipe whose line is two spaces and a tab.\<close>

definition blank_line_session :: Session where
  "blank_line_session =
     Session_default\<lparr>write_fn := Some PosixWrite, read_fn := Some PosixRead,
       line_buf := [CHR '' '', CHR '' '', CHR 0x09] @ replicate 253 NUL,
       line_pos := 3, active := True\<rparr>"

text \<open>A fresh session on a pipe in which \<^verbatim>\<open>ls\<close> has been typed and terminated.\<close>

definition typed_ls_session :: Session where
  "typed_ls_session =
     Session_default\<lparr>write_fn := Some PosixWrite, read_fn := Some PosixRead,
       line_buf := ''ls'' @ replicate 254 NUL, line_pos := 2, active := True\<rparr>"

text \<open>The invariant of the line buffer: the array has its size and the cursor is inside it.\<close>

definition editor_inv :: "Session \<Rightarrow> bool" where
  "editor_inv s = (length (line_buf s) = EMBSH_LINE_BUF_SIZE \<and> line_pos s < EMBSH_LINE_BUF_SIZE)"

text \<open>A printable byte, as \<open>ProcessByte\<close> tests it.\<close>

definition printable :: "char \<Rightarrow> bool" where
  "printable c \<longleftrightarrow> (0x20::nat) \<le> of_char c \<and> of_char c < (0x7F::nat)"

text \<open>
  What one \<open>ProcessByte\<close> step may do to the line: leave buffer and cursor alone, leave a
  NUL at the cursor, store a printable byte at the old cursor and advance, or only move
  the cursor back by one.
\<close>

definition line_step :: "Session \<Rightarrow> char \<Rightarrow> Session \<Rightarrow> bool" where
  "line_step s b s' \<longleftrightarrow>
     (line_buf s' = line_buf s \<and> line_pos s' = line_pos s)
     \<or> line_buf s' ! line_pos s' = NUL
     \<or> (printable b \<and> line_pos s' = line_pos s + 1 \<and> line_buf s' = (line_buf s)[line_pos s := b])
     \<or> ((b = CHR 0x7F \<or> b = CHR 0x08) \<and> line_pos s' + 1 = line_pos s \<and> line_buf s' = line_buf s)"

text \<open>The length \<open>ReplaceLine\<close> copies: \<^verbatim>\<open>strlen(new_line)\<close>, capped at the buffer size less one.\<close>

definition clip_len :: "string \<Rightarrow> nat" where
  "clip_len nl = (if length (cstr nl) \<ge> EMBSH_LINE_BUF_SIZE then EMBSH_LINE_BUF_SIZE - 1
                  else length (cstr nl))"

text \<open>The slot \<open>HistoryUp\<close> computes as \<^verbatim>\<open>prev\<close>.\<close>

definition up_slot :: "Session \<Rightarrow> nat" where
  "up_slot s = ((if hist_browsing s then hist_nav s else hist_write s) + EMBSH_HISTORY_SIZE - 1)
                 mod EMBSH_HISTORY_SIZE"

text \<open>
  The session after sixteen different lines \<^verbatim>\<open>cmd_a\<close> \<dots> \<^verbatim>\<open>cmd_p\<close> have been entered: the
  ring is full, row \<open>i\<close> holds line \<open>i\<close>, and \<open>hist_write\<close> has wrapped to 0.
\<close>

definition sixteen_lines :: "string list" where
  "sixteen_lines = map (\<lambda>c. ''cmd_'' @ [c]) ''abcdefghijklmnop''"

definition full_ring_session :: Session where
  "full_ring_session =
     Session_default\<lparr>write_fn := Some PosixWrite, read_fn := Some PosixRead,
       history := map (\<lambda>l. l @ NUL # replicate (255 - length l) NUL) sixteen_lines,
       hist_count := 16, hist_write := 0, active := True\<rparr>"

text \<open>A fresh session on a pipe, as the unit tests initialise it.\<close>

definition pipe_session :: Session where
  "pipe_session =
     Session_default\<lparr>write_fn := Some PosixWrite, read_fn := Some PosixRead, active := True\<rparr>"

text \<open>Feeding a byte sequence to \<open>ProcessByte\<close>, one call per byte.\<close>

definition feed :: "'c CommandRegistry \<Rightarrow> string \<Rightarrow> Session \<Rightarrow> string \<Rightarrow> Session" where
  "feed reg pr s bytes = foldl (\<lambda>s' b. fst (ProcessByte reg s' b pr)) s bytes"

text \<open>
  The username and password an iteration of the loop of \<open>RunAuth\<close> compares with the
  configured credentials, if it compares: it does when the byte, after the IAC filter, is
  Enter and the phase is the password phase.
\<close>

definition auth_submitted :: "AuthLocals \<Rightarrow> Session \<Rightarrow> char \<Rightarrow> (string \<times> string) option" where
  "auth_submitted l s0 byte0 =
     (case (if telnet_mode s0 then FilterIac s0 byte0 else (s0, byte0)) of (s, byte) \<Rightarrow>
        if telnet_mode s0 \<and> byte = NUL then None
        else if byte = CHR 0x7F \<or> byte = CHR 0x08 then None
        else if (byte = CHR 0x0D \<or> byte = CHR 0x0A) \<and> phase l = kPass
        then Some (cstr (user_buf l), cstr ((pass_buf l)[buf_pos l := NUL]))
        else None)"

text \<open>The pairs the loop of \<open>RunAuth\<close> compares, in order, until it ends.\<close>

function auth_compared :: "ServerConfig \<Rightarrow> AuthLocals \<Rightarrow> Session \<Rightarrow> (string \<times> string) list" where
  "auth_compared cfg l s =
     (if active s \<and> auth_attempts s < kMaxAttempts then
        (case rx s of
           [] \<Rightarrow> []
         | byte # rest \<Rightarrow>
             (case auth_submitted l (s\<lparr>rx := rest\<rparr>) byte of None \<Rightarrow> [] | Some q \<Rightarrow> [q]) @
             (case RunAuth_step cfg l (s\<lparr>rx := rest\<rparr>) byte of
                Continue l' s' \<Rightarrow> auth_compared cfg l' s'
              | Return s' \<Rightarrow> []))
      else [])"
  by pat_completeness auto
termination
proof (relation "measure (\<lambda>(cfg, l, s). length (rx s))")
  show "wf (measure (\<lambda>(cfg, l, s). length (rx s)))"
    by simp
next
  fix cfg :: ServerConfig and l l' :: AuthLocals and s s' :: Session and byte rest
  assume "rx s = byte # rest"
    and "RunAuth_step cfg l (s\<lparr>rx := rest\<rparr>) byte = Continue l' s'"
  then show "((cfg, l', s'), (cfg, l, s)) \<in> measure (\<lambda>(cfg, l, s). length (rx s))"
    using RunAuth_step_rx [of cfg l "s\<lparr>rx := rest\<rparr>" byte l' s'] by simp
qed

text \<open>The pairs a whole run of \<open>RunAuth\<close> compares.\<close>

definition RunAuth_compared :: "ServerConfig \<Rightarrow> Session \<Rightarrow> (string \<times> string) list" where
  "RunAuth_compared cfg s = auth_compared cfg AuthLocals_init (SessionWrite s ''Username: '')"

text \<open>A configuration with credentials, and a telnet session with given pending input.\<close>

definition admin_config :: ServerConfig where
  "admin_config = \<lparr>port = 2323, max_sessions = 8, prompt = ''embsh> '',
     banner = None, username = Some ''admin'', password = Some ''secret''\<rparr>"

definition telnet_session :: "string \<Rightarrow> Session" where
  "telnet_session input =
     Session_default\<lparr>read_fd := 5, write_fd := 5, write_fn := Some TcpWrite,
       read_fn := Some TcpRead, telnet_mode := True, auth_required := True,
       active := True, rx := input\<rparr>"

subsection \<open>The authentication dialogue as the design describes it\<close>

text \<open>
  The definitions of this subsection follow the words of the design document and not the
  code: they read the received bytes alone and do not mention \<open>RunAuth\<close>, its buffers or
  its loop. They are what \<open>RunAuth\<close> is compared with.

  The design's table of the telnet IAC filter: the next state, and the byte handed on, if
  one is. In NORMAL, 0xFF goes to IAC and any other byte passes through; in IAC,
  0xFB..0xFE go to NEGO, 0xFA to SUB, 0xFF to NORMAL emitting a literal 0xFF, any other
  byte to NORMAL; NEGO goes to NORMAL on any byte; SUB goes to IAC on 0xFF and stays
  otherwise.
\<close>

definition spec_iac :: "IacState \<Rightarrow> char \<Rightarrow> IacState \<times> char option" where
  "spec_iac st b =
     (case st of
        kNormal \<Rightarrow> if b = CHR 0xFF then (kIac, None) else (kNormal, Some b)
      | kIac \<Rightarrow>
          if (0xFB::nat) \<le> of_char b \<and> of_char b \<le> (0xFE::nat) then (kNego, None)
          else if b = CHR 0xFA then (kSub, None)
          else if b = CHR 0xFF then (kNormal, Some (CHR 0xFF))
          else (kNormal, None)
      | kNego \<Rightarrow> (kNormal, None)
      | kSub \<Rightarrow> if b = CHR 0xFF then (kIac, None) else (kSub, None))"

text \<open>
  What a byte means to the dialogue: 0x08 and 0x7F are Backspace, \<^verbatim>\<open>\r\<close> and \<^verbatim>\<open>\n\<close> are
  Enter, the bytes 0x20 to 0x7E are printable, and every other byte means nothing.
\<close>

datatype AuthKey = KeyChar char | KeyBackspace | KeyEnter

definition spec_key :: "char \<Rightarrow> AuthKey option" where
  "spec_key c =
     (if c = CHR 0x08 \<or> c = CHR 0x7F then Some KeyBackspace
      else if c = CHR 0x0D \<or> c = CHR 0x0A then Some KeyEnter
      else if (0x20::nat) \<le> of_char c \<and> of_char c \<le> (0x7E::nat) then Some (KeyChar c)
      else None)"

text \<open>
  The keys a received byte sequence stands for. On a telnet transport the bytes pass the
  IAC filter first, and a \<^verbatim>\<open>\r\<close> that was read as Enter takes a directly following
  \<^verbatim>\<open>\n\<close> or NUL with it (line framing \<^verbatim>\<open>\r\n\<close>, \<^verbatim>\<open>\r\0\<close> or a bare \<^verbatim>\<open>\n\<close>); \<open>paired\<close>
  says that the byte before was such a \<^verbatim>\<open>\r\<close>. On the other transports there is no
  filter and no pairing.
\<close>

fun spec_keys :: "bool \<Rightarrow> IacState \<Rightarrow> bool \<Rightarrow> string \<Rightarrow> AuthKey list" where
  "spec_keys telnet st paired [] = []"
| "spec_keys telnet st paired (b # bs) =
     (if paired \<and> (b = CHR 0x0A \<or> b = CHR 0x00) then spec_keys telnet st False bs
      else if telnet then
        (case snd (spec_iac st b) of
           None \<Rightarrow> []
         | Some c \<Rightarrow> (case spec_key c of None \<Rightarrow> [] | Some k \<Rightarrow> [k]))
        @ spec_keys telnet (fst (spec_iac st b)) (snd (spec_iac st b) = Some (CHR 0x0D)) bs
      else
        (case spec_key b of None \<Rightarrow> [] | Some k \<Rightarrow> [k])
        @ spec_keys telnet st False bs)"

text \<open>
  Where the dialogue stands: the peer is typing the username, of which \<open>cur\<close> has been
  entered, or the password, the username \<open>usr\<close> having been entered before.
\<close>

datatype AuthEntry = AtUser string | AtPass string string

text \<open>
  Typing a printable byte appends it to the field. A field holds 63 bytes at most (the
  cap of 64 bytes less the terminator); a byte typed into a full field is dropped.
\<close>

definition spec_type :: "string \<Rightarrow> char \<Rightarrow> string" where
  "spec_type cur c = (if length cur < 63 then cur @ [c] else cur)"

text \<open>
  The username/password pairs a key sequence submits, in order. Backspace removes the
  last byte of the field, if there is one. Enter ends the username and starts an empty
  password; Enter in the password submits the pair and the dialogue restarts at an empty
  username.
\<close>

fun spec_pairs :: "AuthEntry \<Rightarrow> AuthKey list \<Rightarrow> (string \<times> string) list" where
  "spec_pairs e [] = []"
| "spec_pairs (AtUser cur) (KeyChar c # ks) = spec_pairs (AtUser (spec_type cur c)) ks"
| "spec_pairs (AtUser cur) (KeyBackspace # ks) = spec_pairs (AtUser (butlast cur)) ks"
| "spec_pairs (AtUser cur) (KeyEnter # ks) = spec_pairs (AtPass cur []) ks"
| "spec_pairs (AtPass usr cur) (KeyChar c # ks) = spec_pairs (AtPass usr (spec_type cur c)) ks"
| "spec_pairs (AtPass usr cur) (KeyBackspace # ks) = spec_pairs (AtPass usr (butlast cur)) ks"
| "spec_pairs (AtPass usr cur) (KeyEnter # ks) = (usr, cur) # spec_pairs (AtUser []) ks"

text \<open>
  The pairs a received byte sequence submits, for a transport that is telnet or not and
  an IAC filter in state \<open>st\<close>.
\<close>

definition spec_submitted :: "bool \<Rightarrow> IacState \<Rightarrow> string \<Rightarrow> (string \<times> string) list" where
  "spec_submitted telnet st input = spec_pairs (AtUser []) (spec_keys telnet st False input)"

text \<open>A list up to its first element equal to \<open>x\<close>, that element included.\<close>

fun until_match :: "'a \<Rightarrow> 'a list \<Rightarrow> 'a list" where
  "until_match x [] = []"
| "until_match x (y # ys) = (if y = x then [y] else y # until_match x ys)"

text \<open>
  The link between the two sides. The entry of the design that the locals of \<open>RunAuth\<close>
  stand for is read from the buffer of the phase up to \<open>buf_pos\<close>, with the username, in
  the password phase, the C string of \<open>user_buf\<close>. The locals are well formed when the
  buffers have their 64 bytes, \<open>buf_pos\<close> is inside them and no NUL lies before it.
\<close>

definition auth_entry :: "AuthLocals \<Rightarrow> AuthEntry" where
  "auth_entry l =
     (if phase l = kUser then AtUser (take (buf_pos l) (user_buf l))
      else AtPass (cstr (user_buf l)) (take (buf_pos l) (pass_buf l)))"

definition auth_inv :: "AuthLocals \<Rightarrow> bool" where
  "auth_inv l \<longleftrightarrow>
     length (user_buf l) = 64 \<and> length (pass_buf l) = 64 \<and> buf_pos l < 64
     \<and> NUL \<notin> set (take (buf_pos l) (if phase l = kUser then user_buf l else pass_buf l))"

text \<open>The entry after a key that does not submit a pair.\<close>

fun spec_edit :: "AuthEntry \<Rightarrow> AuthKey \<Rightarrow> AuthEntry" where
  "spec_edit (AtUser cur) (KeyChar c) = AtUser (spec_type cur c)"
| "spec_edit (AtUser cur) KeyBackspace = AtUser (butlast cur)"
| "spec_edit (AtUser cur) KeyEnter = AtPass cur []"
| "spec_edit (AtPass usr cur) (KeyChar c) = AtPass usr (spec_type cur c)"
| "spec_edit (AtPass usr cur) KeyBackspace = AtPass usr (butlast cur)"
| "spec_edit (AtPass usr cur) KeyEnter = AtUser []"

declare skip_ws.simps [simp del] scan_quoted.simps [simp del] scan_unquoted.simps [simp del]
  ShellSplit_loop.simps [simp del] common_len.simps [simp del] RunAuth_loop.simps [simp del]
  auth_compared.simps [simp del]

section \<open>Verified properties\<close>

subsection \<open>C strings\<close>

lemma cstr_append_NUL: "cstr (xs @ NUL # ys) = cstr xs"
  unfolding cstr_def by (induction xs) auto

lemma length_cstr_le: "length (cstr xs) \<le> length xs"
  unfolding cstr_def by (rule length_takeWhile_le)

subsection \<open>The tokenizer\<close>

lemma ShellSplit_loop_argc:
  "length (snd (ShellSplit_loop cmd len i argv)) \<le> max (length argv) EMBSH_MAX_ARGS"
proof (induction cmd len i argv rule: ShellSplit_loop.induct)
  case (1 cmd len i argv)
  show ?case
    apply (subst ShellSplit_loop.simps)
    using 1 by (auto simp: Let_def split: prod.splits)
qed

text \<open>
  C1. The line \<^verbatim>\<open>echo "a\"b"\<close> (11 bytes) does not tokenize to \<^verbatim>\<open>echo\<close> and \<^verbatim>\<open>a"b\<close>. After the
  backslash is removed by the left shift, the loop looks again at the same position, finds
  the quote that was escaped and ends the argument there: the result is three arguments,
  \<^verbatim>\<open>echo\<close>, \<^verbatim>\<open>a\<close> and \<^verbatim>\<open>b""\<close> (the last one runs over the stale byte the shift left
  behind the shortened length).
\<close>

theorem ShellSplit_escaped_quote_ends_token:
  "ShellSplit_args
     (''echo '' @ [CHR 0x22] @ ''a'' @ [CHR 0x5C, CHR 0x22] @ ''b'' @ [CHR 0x22, NUL]) 11
   = (3, [''echo'', ''a'', ''b'' @ [CHR 0x22, CHR 0x22]])"
  by code_simp

text \<open>
  C7. \<open>ShellSplit\<close> never reports an overflow: its result is always between 0 and
  \<open>EMBSH_MAX_ARGS\<close>. On 33 one-letter tokens separated by single spaces it returns 32, and
  the last argument is the unsplit rest of the line, \<^verbatim>\<open>a a\<close>.
\<close>

theorem ShellSplit_overflow_returns_cap:
  "ShellSplit_args (concat (replicate 32 ''a '') @ ''a'' @ [NUL]) 65
     = (32, replicate 31 ''a'' @ [''a a''])
   \<and> (\<forall>cmd len. 0 \<le> fst (ShellSplit cmd len) \<and> fst (ShellSplit cmd len) \<le> 32)"
proof
  show "ShellSplit_args (concat (replicate 32 ''a '') @ ''a'' @ [NUL]) 65
          = (32, replicate 31 ''a'' @ [''a a''])"
    by code_simp
next
  show "\<forall>cmd len. 0 \<le> fst (ShellSplit cmd len) \<and> fst (ShellSplit cmd len) \<le> 32"
  proof (intro allI)
    fix cmd len
    show "0 \<le> fst (ShellSplit cmd len) \<and> fst (ShellSplit cmd len) \<le> 32"
      using ShellSplit_loop_argc [of cmd len 0 "[]"]
      by (auto simp: ShellSplit_def EMBSH_MAX_ARGS_def split: prod.splits)
  qed
qed

subsection \<open>The command registry\<close>


lemma find_from_Some:
  "find_from cs i k nm = Some j \<Longrightarrow>
     i \<le> j \<and> j < i + k \<and> name (cs ! j) = nm \<and> (\<forall>j'. i \<le> j' \<and> j' < j \<longrightarrow> name (cs ! j') \<noteq> nm)"
proof (induction k arbitrary: i)
  case 0
  then show ?case by simp
next
  case (Suc k)
  show ?case
  proof (cases "name (cs ! i) = nm")
    case True
    with Suc.prems show ?thesis by auto
  next
    case False
    with Suc.prems have "find_from cs (Suc i) k nm = Some j" by simp
    from Suc.IH [OF this]
    have a: "Suc i \<le> j" "j < Suc i + k" "name (cs ! j) = nm"
      and b: "\<forall>j'. Suc i \<le> j' \<and> j' < j \<longrightarrow> name (cs ! j') \<noteq> nm"
      by auto
    have "name (cs ! j') \<noteq> nm" if "i \<le> j'" "j' < j" for j'
    proof (cases "j' = i")
      case True
      with False show ?thesis by simp
    next
      case neq: False
      with that have "Suc i \<le> j'" by simp
      with b that show ?thesis by blast
    qed
    with a show ?thesis by auto
  qed
qed




subsection \<open>The output router\<close>

lemma vsnprintf_buf_cstr:
  "cstr ((take 511 t @ replicate (512 - length (take 511 t)) NUL)[511 := NUL])
     = cstr (take 511 t)"
proof -
  let ?xs = "take 511 t"
  have l: "length ?xs \<le> 511" by simp
  then obtain k where k: "512 - length ?xs = Suc k"
    by (cases "512 - length ?xs") auto
  have "(?xs @ replicate (Suc k) NUL) ! 511 = NUL"
    using l k by (simp add: nth_append del: replicate_Suc)
  then have "(?xs @ replicate (Suc k) NUL)[511 := NUL] = ?xs @ replicate (Suc k) NUL"
    by (metis list_update_id)
  then show ?thesis
    unfolding k by (simp add: cstr_append_NUL)
qed

text \<open>
  C6 does not hold as stated: with a sink installed and an empty formatted result,
  \<open>ShellPrintf\<close> returns 0 and the sink's callback is not called.
\<close>

theorem ShellPrintf_empty_no_write:
  "write counting_sink \<noteq> None \<and> ShellPrintf counting_sink (Some []) 0 = (0, 0)"
  by (simp add: ShellPrintf_def counting_sink_def vsnprintf_def)

text \<open>
  C6, amended. With no sink installed \<open>ShellPrintf\<close> returns \<open>-1\<close> and leaves the world as it
  is. With a sink installed and a non-empty formatted result it returns the length of the
  full result and calls the sink's callback exactly once, on the C string of the 512-byte
  buffer: the first 511 bytes of the result at most, with a NUL at position 511. With a
  sink installed and an empty result, or a formatting error, the callback is not called
  and the return value of \<open>vsnprintf\<close> (0, or negative) is returned.
\<close>

theorem ShellPrintf_router:
  "(write out = None \<longrightarrow> ShellPrintf out f w = (- 1, w))
   \<and> (write out = Some wr \<and> f = Some t \<and> t \<noteq> [] \<longrightarrow>
        ShellPrintf out f w = (int (length t), wr (cstr (take 511 t)) (write_ctx out) w)
        \<and> length (cstr (take 511 t)) \<le> 511
        \<and> length (fst (vsnprintf 512 f)) = 512
        \<and> (fst (vsnprintf 512 f))[511 := NUL] ! 511 = NUL)
   \<and> (write out = Some wr \<and> f = Some [] \<longrightarrow> ShellPrintf out f w = (0, w))
   \<and> (write out = Some wr \<and> f = None \<longrightarrow> ShellPrintf out f w = (- 1, w))"
proof -
  have "length (cstr (take 511 t)) \<le> 511"
    by (rule order_trans [OF length_cstr_le]) simp
  with vsnprintf_buf_cstr [of t] show ?thesis
    by (auto simp: ShellPrintf_def vsnprintf_def)
qed

theorem ShellPrintf_router_witness:
  "ShellPrintf \<lparr>write = None, write_ctx = None\<rparr> (Some ''Hi'') (0::nat) = (- 1, 0)
   \<and> ShellPrintf counting_sink (Some ''Hi'') 0 = (2, 1)
   \<and> ShellPrintf counting_sink (Some []) 0 = (0, 0)
   \<and> ShellPrintf counting_sink None 0 = (- 1, 0)"
  using ShellPrintf_router
          [of "\<lparr>write = None, write_ctx = None\<rparr>" "Some ''Hi''" "0::nat" "\<lambda>str c n. n" "''Hi''"]
    ShellPrintf_router [of counting_sink "Some ''Hi''" 0 "\<lambda>str c n. n + 1" "''Hi''"]
    ShellPrintf_router [of counting_sink "Some []" 0 "\<lambda>str c n. n + 1" "[]"]
    ShellPrintf_router [of counting_sink None 0 "\<lambda>str c n. n + 1" "[]"]
  by (simp add: counting_sink_def)

subsection \<open>The history ring\<close>

lemma ring_last: "h < EMBSH_HISTORY_SIZE \<Longrightarrow>
   ((h + 1) mod EMBSH_HISTORY_SIZE + EMBSH_HISTORY_SIZE - 1) mod EMBSH_HISTORY_SIZE = h"
  unfolding EMBSH_HISTORY_SIZE_def by (cases "h = 15") auto

lemma stored_row_cstr:
  assumes "n < length row" "n < length buf" "buf ! n = NUL"
  shows "cstr ((memcpy row buf n)[n := NUL]) = cstr buf"
proof -
  have d: "drop n row = row ! n # drop (Suc n) row"
    using assms(1) by (simp add: Cons_nth_drop_Suc)
  have "(take n buf @ drop n row)[n := NUL] = take n buf @ (drop n row)[0 := NUL]"
    using assms(2) by (simp add: list_update_append)
  also have "\<dots> = take n buf @ NUL # drop (Suc n) row"
    by (subst d) simp
  finally have r: "(memcpy row buf n)[n := NUL] = take n buf @ NUL # drop (Suc n) row"
    by (simp add: memcpy_def)
  have "buf = take n buf @ buf ! n # drop (Suc n) buf"
    using assms(2) by (rule id_take_nth_drop)
  then have b: "cstr buf = cstr (take n buf @ NUL # drop (Suc n) buf)"
    using assms(3) by simp
  show ?thesis
    unfolding r b by (simp only: cstr_append_NUL)
qed

text \<open>
  C8. Take a session whose ring is well formed (\<open>hist_write\<close> below \<open>EMBSH_HISTORY_SIZE\<close>,
  that many rows, the row at \<open>hist_write\<close> longer than the line) and whose line buffer
  holds a non-empty line terminated at \<open>line_pos\<close>, as it is when Enter calls
  \<open>PushHistory\<close>. Pushing the line a second time changes nothing at all, so \<open>hist_count\<close>,
  \<open>hist_write\<close> and the stored entries stay. And when the ring is empty or the entry before
  \<open>hist_write\<close> differs from the line, one push stores the line at \<open>hist_write\<close>, adds
  one to \<open>hist_count\<close> unless it has reached \<open>EMBSH_HISTORY_SIZE\<close>, and advances
  \<open>hist_write\<close> modulo \<open>EMBSH_HISTORY_SIZE\<close>.
\<close>

theorem PushHistory_dedup:
  assumes "hist_write s < EMBSH_HISTORY_SIZE"
    and "length (history s) = EMBSH_HISTORY_SIZE"
    and "line_pos s < length (history s ! hist_write s)"
    and "0 < line_pos s"
    and "line_pos s < length (line_buf s)"
    and "line_buf s ! line_pos s = NUL"
  shows "PushHistory (PushHistory s) = PushHistory s
     \<and> (hist_count s = 0 \<or>
          cstr (history s ! ((hist_write s + EMBSH_HISTORY_SIZE - 1) mod EMBSH_HISTORY_SIZE))
            \<noteq> cstr (line_buf s)
        \<longrightarrow> hist_count (PushHistory s)
              = (if hist_count s < EMBSH_HISTORY_SIZE then hist_count s + 1 else hist_count s)
            \<and> hist_write (PushHistory s) = (hist_write s + 1) mod EMBSH_HISTORY_SIZE
            \<and> cstr (history (PushHistory s) ! hist_write s) = cstr (line_buf s))"
proof -
  let ?last = "(hist_write s + EMBSH_HISTORY_SIZE - 1) mod EMBSH_HISTORY_SIZE"
  let ?row = "(memcpy (history s ! hist_write s) (line_buf s) (line_pos s))[line_pos s := NUL]"
  have row: "cstr ?row = cstr (line_buf s)"
    using assms by (intro stored_row_cstr) auto
  show ?thesis
  proof (cases "hist_count s > 0 \<and> cstr (history s ! ?last) = cstr (line_buf s)")
    case True
    then have "PushHistory s = s"
      using assms(4) by (simp add: PushHistory_def)
    with True show ?thesis by auto
  next
    case False
    define s' where "s' = PushHistory s"
    have s': "s' = s\<lparr>history := (history s)[hist_write s := ?row],
                      hist_write := (hist_write s + 1) mod EMBSH_HISTORY_SIZE,
                      hist_count := (if hist_count s < EMBSH_HISTORY_SIZE
                                     then hist_count s + 1 else hist_count s)\<rparr>"
      unfolding s'_def using False assms(4) by (auto simp: PushHistory_def Let_def)
    have c: "hist_count s' > 0"
      unfolding s' by (simp add: EMBSH_HISTORY_SIZE_def)
    have l: "(hist_write s' + EMBSH_HISTORY_SIZE - 1) mod EMBSH_HISTORY_SIZE = hist_write s"
      unfolding s' using ring_last [OF assms(1)] by simp
    have h: "history s' ! hist_write s = ?row"
      unfolding s' using assms(1,2) by simp
    have "PushHistory s' = s'"
      using c l h row assms(4) by (simp add: PushHistory_def s')
    then show ?thesis
      using False h row unfolding s'_def [symmetric] by (auto simp: s')
  qed
qed

theorem PushHistory_dedup_witness:
  "hist_write typed_ls_session < EMBSH_HISTORY_SIZE
   \<and> length (history typed_ls_session) = EMBSH_HISTORY_SIZE
   \<and> line_pos typed_ls_session < length (history typed_ls_session ! hist_write typed_ls_session)
   \<and> 0 < line_pos typed_ls_session
   \<and> line_pos typed_ls_session < length (line_buf typed_ls_session)
   \<and> line_buf typed_ls_session ! line_pos typed_ls_session = NUL
   \<and> hist_count typed_ls_session = 0
   \<and> PushHistory (PushHistory typed_ls_session) = PushHistory typed_ls_session
   \<and> hist_count (PushHistory typed_ls_session) = 1
   \<and> hist_write (PushHistory typed_ls_session) = 1
   \<and> cstr (history (PushHistory typed_ls_session) ! 0) = ''ls''"
proof -
  have h: "hist_write typed_ls_session < EMBSH_HISTORY_SIZE"
    "length (history typed_ls_session) = EMBSH_HISTORY_SIZE"
    "line_pos typed_ls_session < length (history typed_ls_session ! hist_write typed_ls_session)"
    "0 < line_pos typed_ls_session"
    "line_pos typed_ls_session < length (line_buf typed_ls_session)"
    "line_buf typed_ls_session ! line_pos typed_ls_session = NUL"
    by (simp_all add: typed_ls_session_def Session_default_def EMBSH_HISTORY_SIZE_def
        EMBSH_LINE_BUF_SIZE_def nth_append)
  have c: "hist_count typed_ls_session = 0" "hist_write typed_ls_session = 0"
    "cstr (line_buf typed_ls_session) = ''ls''"
    by (simp_all add: typed_ls_session_def Session_default_def cstr_def NUL_def)
  show ?thesis
    using PushHistory_dedup [OF h] h c
    by (simp add: EMBSH_HISTORY_SIZE_def)
qed

subsection \<open>Replacing the line and walking the ring\<close>

lemma SessionWrite_frame: "SessionWrite s x = s\<lparr>tx := tx (SessionWrite s x)\<rparr>"
  by (simp add: SessionWrite_def)

lemma SessionWriteN_frame: "SessionWriteN s x n = s\<lparr>tx := tx (SessionWriteN s x n)\<rparr>"
  by (simp add: SessionWriteN_def)

lemma erase_loop_frame:
  "((\<lambda>s'. SessionWrite s' x) ^^ n) s = s\<lparr>tx := tx (((\<lambda>s'. SessionWrite s' x) ^^ n) s)\<rparr>"
proof (induction n)
  case 0
  show ?case by simp
next
  case (Suc n)
  let ?t = "((\<lambda>s'. SessionWrite s' x) ^^ n) s"
  have "SessionWrite ?t x = ?t\<lparr>tx := tx (SessionWrite ?t x)\<rparr>"
    by (rule SessionWrite_frame)
  also have "\<dots> = s\<lparr>tx := tx (SessionWrite ?t x)\<rparr>"
    by (subst Suc.IH) simp
  finally show ?case by simp
qed

lemma erase_line_frame: "erase_line s = s\<lparr>tx := tx (erase_line s)\<rparr>"
  unfolding erase_line_def by (rule erase_loop_frame)

lemma ReplaceLine_frame:
  "ReplaceLine s nl =
     s\<lparr>line_buf := (memcpy (line_buf s) nl (clip_len nl))[clip_len nl := NUL],
       line_pos := clip_len nl, tx := tx (ReplaceLine s nl)\<rparr>"
proof -
  obtain e where e: "erase_line s = s\<lparr>tx := e\<rparr>"
    using erase_line_frame by blast
  show ?thesis
    unfolding ReplaceLine_def Let_def e clip_len_def [symmetric]
    by (subst SessionWriteN_frame) simp
qed

lemma clip_len_le: "clip_len nl \<le> length nl" "clip_len nl < EMBSH_LINE_BUF_SIZE"
  using length_cstr_le [of nl] by (auto simp: clip_len_def EMBSH_LINE_BUF_SIZE_def)

lemma replaced_buf:
  assumes "length buf = EMBSH_LINE_BUF_SIZE"
  shows "length ((memcpy buf nl (clip_len nl))[clip_len nl := NUL]) = EMBSH_LINE_BUF_SIZE"
    and "(memcpy buf nl (clip_len nl))[clip_len nl := NUL] ! clip_len nl = NUL"
    and "cstr ((memcpy buf nl (clip_len nl))[clip_len nl := NUL]) = take (clip_len nl) (cstr nl)"
proof -
  let ?n = "clip_len nl"
  have n: "?n \<le> length nl" "?n < length buf"
    using clip_len_le [of nl] assms by simp_all
  then show l: "length ((memcpy buf nl ?n)[?n := NUL]) = EMBSH_LINE_BUF_SIZE"
    using assms by (simp add: memcpy_def)
  then show "(memcpy buf nl ?n)[?n := NUL] ! ?n = NUL"
    using n assms by simp
  have d: "drop ?n buf = buf ! ?n # drop (Suc ?n) buf"
    using n by (simp add: Cons_nth_drop_Suc)
  have "(take ?n nl @ drop ?n buf)[?n := NUL] = take ?n nl @ (drop ?n buf)[0 := NUL]"
    using n by (simp add: list_update_append)
  also have "\<dots> = take ?n nl @ NUL # drop (Suc ?n) buf"
    by (subst d) simp
  finally have "cstr ((memcpy buf nl ?n)[?n := NUL]) = cstr (take ?n nl)"
    by (simp add: memcpy_def cstr_append_NUL)
  also have "\<dots> = take ?n (cstr nl)"
  proof -
    have "?n \<le> length (cstr nl)"
      by (simp add: clip_len_def EMBSH_LINE_BUF_SIZE_def)
    then have "take ?n nl = take ?n (cstr nl)"
      unfolding cstr_def
      by (metis append_eq_conv_conj append_take_drop_id takeWhile_dropWhile_id take_append
          diff_is_0_eq' take_0 append_Nil2 length_take min.absorb2)
    moreover have "cstr (take ?n (cstr nl)) = take ?n (cstr nl)"
      unfolding cstr_def
      by (metis in_set_takeD set_takeWhileD takeWhile_eq_all_conv)
    ultimately show ?thesis by simp
  qed
  finally show "cstr ((memcpy buf nl ?n)[?n := NUL]) = take ?n (cstr nl)" .
qed


lemma ring_prev_neq: "(n + EMBSH_HISTORY_SIZE - 1) mod EMBSH_HISTORY_SIZE \<noteq> n"
proof (cases "n < 16")
  case True
  then show ?thesis
    unfolding EMBSH_HISTORY_SIZE_def by (cases "n = 0") (auto simp: mod_if)
next
  case False
  have "(n + 16 - 1) mod 16 < 16" by simp
  with False show ?thesis
    unfolding EMBSH_HISTORY_SIZE_def by linarith
qed

lemma HistoryUp_full_ring:
  assumes "hist_count s = EMBSH_HISTORY_SIZE"
  shows "HistoryUp s =
           ReplaceLine (s\<lparr>hist_browsing := True, hist_nav := up_slot s\<rparr>) (history s ! up_slot s)"
proof -
  have d: "(hist_write s + EMBSH_HISTORY_SIZE - up_slot s) mod EMBSH_HISTORY_SIZE
             < EMBSH_HISTORY_SIZE"
    by (simp add: EMBSH_HISTORY_SIZE_def)
  have c: "hist_count s \<noteq> 0"
    using assms by (simp add: EMBSH_HISTORY_SIZE_def)
  show ?thesis
  proof (cases "hist_browsing s")
    case True
    then have u: "up_slot s = (hist_nav s + EMBSH_HISTORY_SIZE - 1) mod EMBSH_HISTORY_SIZE"
      by (simp add: up_slot_def)
    have b: "s\<lparr>hist_browsing := True, hist_nav := up_slot s\<rparr> = s\<lparr>hist_nav := up_slot s\<rparr>"
      using True by simp
    show ?thesis
      unfolding b using True c d assms ring_prev_neq [of "hist_nav s"]
      unfolding u by (simp add: HistoryUp_def Let_def)
  next
    case False
    then have u: "up_slot s = (hist_write s + EMBSH_HISTORY_SIZE - 1) mod EMBSH_HISTORY_SIZE"
      by (simp add: up_slot_def)
    show ?thesis
      using False c d assms ring_prev_neq [of "hist_write s"]
      unfolding u by (simp add: HistoryUp_def Let_def)
  qed
qed


lemma HistoryUp_full_step:
  assumes "hist_count s = EMBSH_HISTORY_SIZE" "length (line_buf s) = EMBSH_LINE_BUF_SIZE"
  shows "hist_count (HistoryUp s) = EMBSH_HISTORY_SIZE"
    and "hist_write (HistoryUp s) = hist_write s"
    and "history (HistoryUp s) = history s"
    and "hist_browsing (HistoryUp s)"
    and "hist_nav (HistoryUp s) = up_slot s"
    and "length (line_buf (HistoryUp s)) = EMBSH_LINE_BUF_SIZE"
    and "cstr (line_buf (HistoryUp s))
           = take (clip_len (history s ! up_slot s)) (cstr (history s ! up_slot s))"
proof -
  let ?s2 = "s\<lparr>hist_browsing := True, hist_nav := up_slot s\<rparr>"
  let ?row = "history s ! up_slot s"
  have e: "HistoryUp s =
      ?s2\<lparr>line_buf := (memcpy (line_buf ?s2) ?row (clip_len ?row))[clip_len ?row := NUL],
         line_pos := clip_len ?row, tx := tx (ReplaceLine ?s2 ?row)\<rparr>"
    unfolding HistoryUp_full_ring [OF assms(1)] by (rule ReplaceLine_frame)
  show "hist_count (HistoryUp s) = EMBSH_HISTORY_SIZE" "hist_write (HistoryUp s) = hist_write s"
    "history (HistoryUp s) = history s" "hist_browsing (HistoryUp s)"
    "hist_nav (HistoryUp s) = up_slot s"
    by (subst e, simp add: assms)+
  show "length (line_buf (HistoryUp s)) = EMBSH_LINE_BUF_SIZE"
    using replaced_buf(1) [OF assms(2), of ?row] by (subst e) simp
  show "cstr (line_buf (HistoryUp s)) = take (clip_len ?row) (cstr ?row)"
    using replaced_buf(3) [OF assms(2), of ?row] by (subst e) simp
qed

lemma full_ring_ups:
  assumes "hist_count s = EMBSH_HISTORY_SIZE" "length (line_buf s) = EMBSH_LINE_BUF_SIZE"
    "\<not> hist_browsing s"
  shows "hist_count ((HistoryUp ^^ Suc k) s) = EMBSH_HISTORY_SIZE
     \<and> hist_write ((HistoryUp ^^ Suc k) s) = hist_write s
     \<and> history ((HistoryUp ^^ Suc k) s) = history s
     \<and> hist_browsing ((HistoryUp ^^ Suc k) s)
     \<and> length (line_buf ((HistoryUp ^^ Suc k) s)) = EMBSH_LINE_BUF_SIZE
     \<and> hist_nav ((HistoryUp ^^ Suc k) s) = (hist_write s + 15 * Suc k) mod 16
     \<and> cstr (line_buf ((HistoryUp ^^ Suc k) s))
         = take (clip_len (history s ! hist_nav ((HistoryUp ^^ Suc k) s)))
             (cstr (history s ! hist_nav ((HistoryUp ^^ Suc k) s)))"
proof (induction k)
  case 0
  have "up_slot s = (hist_write s + 15) mod 16"
    using assms(3) by (simp add: up_slot_def EMBSH_HISTORY_SIZE_def add.commute)
  then show ?case
    using HistoryUp_full_step [OF assms(1,2)] by simp
next
  case (Suc k)
  let ?t = "(HistoryUp ^^ Suc k) s"
  have t: "hist_count ?t = EMBSH_HISTORY_SIZE" "length (line_buf ?t) = EMBSH_LINE_BUF_SIZE"
    using Suc.IH by simp_all
  have nav: "hist_nav ?t = (hist_write s + 15 * Suc k) mod 16" and br: "hist_browsing ?t"
    using Suc.IH by blast+
  have "up_slot ?t = (hist_nav ?t + 15) mod 16"
    unfolding up_slot_def EMBSH_HISTORY_SIZE_def using br by (simp add: add.commute)
  also have "\<dots> = (hist_write s + 15 * Suc k + 15) mod 16"
    unfolding nav by (rule mod_add_left_eq)
  also have "hist_write s + 15 * Suc k + 15 = hist_write s + 15 * Suc (Suc k)"
    by simp
  finally have u: "up_slot ?t = (hist_write s + 15 * Suc (Suc k)) mod 16" .
  have f: "(HistoryUp ^^ Suc (Suc k)) s = HistoryUp ?t"
    by simp
  have hw: "hist_write ?t = hist_write s" "history ?t = history s"
    using Suc.IH by blast+
  note st = HistoryUp_full_step [OF t]
  show ?case
    unfolding f using st(4) by (simp only: st(1,2,3,5,6,7) u hw simp_thms)
qed

text \<open>
  C3. With the ring exactly full (\<open>hist_count = EMBSH_HISTORY_SIZE\<close>), \<open>HistoryUp\<close> does not
  stop at the oldest entry. The distance it compares with \<open>hist_count\<close> is taken modulo
  \<open>EMBSH_HISTORY_SIZE\<close>, so it never exceeds \<open>hist_count\<close>. In the session with the sixteen
  lines \<^verbatim>\<open>cmd_a\<close> \<dots> \<^verbatim>\<open>cmd_p\<close>, sixteen steps up reach the oldest entry \<^verbatim>\<open>cmd_a\<close> in slot
  \<open>hist_write = 0\<close>, and the seventeenth step moves \<open>hist_nav\<close> to slot 15 and shows the
  newest entry \<^verbatim>\<open>cmd_p\<close> again.
\<close>

theorem HistoryUp_wraps_full_ring:
  "hist_count full_ring_session = EMBSH_HISTORY_SIZE
   \<and> hist_write full_ring_session = 0
   \<and> map cstr (history full_ring_session) = sixteen_lines
   \<and> hist_nav ((HistoryUp ^^ 16) full_ring_session) = 0
   \<and> cstr (line_buf ((HistoryUp ^^ 16) full_ring_session)) = ''cmd_a''
   \<and> hist_nav ((HistoryUp ^^ 17) full_ring_session) = 15
   \<and> cstr (line_buf ((HistoryUp ^^ 17) full_ring_session)) = ''cmd_p''"
proof -
  have a: "hist_count full_ring_session = EMBSH_HISTORY_SIZE"
    "length (line_buf full_ring_session) = EMBSH_LINE_BUF_SIZE"
    "\<not> hist_browsing full_ring_session"
    by (simp_all add: full_ring_session_def Session_default_def EMBSH_HISTORY_SIZE_def)
  have w: "hist_write full_ring_session = 0"
    by (simp add: full_ring_session_def)
  have h: "map cstr (history full_ring_session) = sixteen_lines"
    by (simp add: full_ring_session_def sixteen_lines_def cstr_append_NUL)
       (simp add: cstr_def NUL_def)
  have r0: "cstr (history full_ring_session ! 0) = ''cmd_a''"
    and r15: "cstr (history full_ring_session ! 15) = ''cmd_p''"
    by (simp_all add: full_ring_session_def sixteen_lines_def cstr_append_NUL)
       (simp_all add: cstr_def NUL_def)
  have n16: "(16::nat) = Suc 15" and n17: "(17::nat) = Suc 16"
    by simp_all
  show ?thesis
    using full_ring_ups [OF a, of 15] full_ring_ups [OF a, of 16] a w h r0 r15
    unfolding n16 [symmetric] n17 [symmetric]
    by (simp add: clip_len_def EMBSH_LINE_BUF_SIZE_def)
qed

subsection \<open>The line buffer under ProcessByte\<close>

lemma ReplaceLine_inv:
  assumes "length (line_buf s) = EMBSH_LINE_BUF_SIZE"
  shows "length (line_buf (ReplaceLine s nl)) = EMBSH_LINE_BUF_SIZE"
    and "line_pos (ReplaceLine s nl) < EMBSH_LINE_BUF_SIZE"
    and "line_buf (ReplaceLine s nl) ! line_pos (ReplaceLine s nl) = NUL"
  using replaced_buf(1,2) [OF assms, of nl] clip_len_le(2) [of nl]
  by (subst ReplaceLine_frame, simp)+

lemma HistoryUp_inv:
  assumes "length (line_buf s) = EMBSH_LINE_BUF_SIZE" "line_pos s < EMBSH_LINE_BUF_SIZE"
  shows "length (line_buf (HistoryUp s)) = EMBSH_LINE_BUF_SIZE
     \<and> line_pos (HistoryUp s) < EMBSH_LINE_BUF_SIZE
     \<and> ((line_buf (HistoryUp s) = line_buf s \<and> line_pos (HistoryUp s) = line_pos s)
        \<or> line_buf (HistoryUp s) ! line_pos (HistoryUp s) = NUL)"
proof -
  define s1 where "s1 = (if \<not> hist_browsing s
                          then s\<lparr>hist_nav := hist_write s, hist_browsing := True\<rparr> else s)"
  define prev where "prev = (hist_nav s1 + EMBSH_HISTORY_SIZE - 1) mod EMBSH_HISTORY_SIZE"
  define stop where "stop \<longleftrightarrow> hist_count s = 0 \<or> prev = hist_nav s1 \<or>
     (hist_write s1 + EMBSH_HISTORY_SIZE - prev) mod EMBSH_HISTORY_SIZE > hist_count s1"
  have l1: "line_buf s1 = line_buf s" "line_pos s1 = line_pos s"
    by (simp_all add: s1_def)
  have e: "HistoryUp s =
     (if hist_count s = 0 then s
      else if prev = hist_nav s1 then s1
      else if (hist_write s1 + EMBSH_HISTORY_SIZE - prev) mod EMBSH_HISTORY_SIZE > hist_count s1
      then s1
      else ReplaceLine (s1\<lparr>hist_nav := prev\<rparr>)
             (history (s1\<lparr>hist_nav := prev\<rparr>) ! hist_nav (s1\<lparr>hist_nav := prev\<rparr>)))"
    unfolding HistoryUp_def s1_def prev_def Let_def by (rule refl)
  show ?thesis
  proof (cases stop)
    case True
    then have "HistoryUp s = s \<or> HistoryUp s = s1"
      unfolding e stop_def by auto
    with l1 assms show ?thesis by auto
  next
    case False
    then have "HistoryUp s = ReplaceLine (s1\<lparr>hist_nav := prev\<rparr>)
             (history (s1\<lparr>hist_nav := prev\<rparr>) ! hist_nav (s1\<lparr>hist_nav := prev\<rparr>))"
      unfolding e stop_def by simp
    moreover have "length (line_buf (s1\<lparr>hist_nav := prev\<rparr>)) = EMBSH_LINE_BUF_SIZE"
      using l1 assms by simp
    ultimately show ?thesis
      using ReplaceLine_inv by simp
  qed
qed

lemma HistoryDown_inv:
  assumes "length (line_buf s) = EMBSH_LINE_BUF_SIZE" "line_pos s < EMBSH_LINE_BUF_SIZE"
  shows "length (line_buf (HistoryDown s)) = EMBSH_LINE_BUF_SIZE
     \<and> line_pos (HistoryDown s) < EMBSH_LINE_BUF_SIZE
     \<and> ((line_buf (HistoryDown s) = line_buf s \<and> line_pos (HistoryDown s) = line_pos s)
        \<or> line_buf (HistoryDown s) ! line_pos (HistoryDown s) = NUL)"
proof -
  obtain e where e: "erase_line (s\<lparr>hist_browsing := False\<rparr>) = s\<lparr>hist_browsing := False, tx := e\<rparr>"
    using erase_line_frame [of "s\<lparr>hist_browsing := False\<rparr>"] by blast
  define next_slot where "next_slot = (hist_nav s + 1) mod EMBSH_HISTORY_SIZE"
  have d: "HistoryDown s =
     (if \<not> hist_browsing s then s
      else if next_slot = hist_write s
      then s\<lparr>hist_browsing := False, tx := e, line_pos := 0, line_buf := (line_buf s)[0 := NUL]\<rparr>
      else ReplaceLine (s\<lparr>hist_nav := next_slot\<rparr>)
             (history (s\<lparr>hist_nav := next_slot\<rparr>) ! hist_nav (s\<lparr>hist_nav := next_slot\<rparr>)))"
    unfolding HistoryDown_def Let_def e next_slot_def by simp
  consider (a) "\<not> hist_browsing s" | (b) "hist_browsing s" "next_slot = hist_write s"
    | (c) "hist_browsing s" "next_slot \<noteq> hist_write s"
    by blast
  then show ?thesis
  proof cases
    case a
    with d assms show ?thesis by simp
  next
    case b
    with d assms show ?thesis by (simp add: EMBSH_LINE_BUF_SIZE_def)
  next
    case c
    then have "HistoryDown s = ReplaceLine (s\<lparr>hist_nav := next_slot\<rparr>)
             (history (s\<lparr>hist_nav := next_slot\<rparr>) ! hist_nav (s\<lparr>hist_nav := next_slot\<rparr>))"
      unfolding d by simp
    moreover have "length (line_buf (s\<lparr>hist_nav := next_slot\<rparr>)) = EMBSH_LINE_BUF_SIZE"
      using assms by simp
    ultimately show ?thesis
      using ReplaceLine_inv by simp
  qed
qed

lemma SessionWrite_tx: "\<exists>e. SessionWrite s x = s\<lparr>tx := e\<rparr>"
  by (rule exI) (rule SessionWrite_frame)

lemma ForEach_tx:
  assumes "\<And>c t. \<exists>e. v c t = t\<lparr>tx := e\<rparr>"
  shows "\<exists>e. ForEach reg v s = s\<lparr>tx := e\<rparr>"
proof -
  have "\<exists>e. fold v xs s = s\<lparr>tx := e\<rparr>" for xs
  proof (induction xs arbitrary: s)
    case Nil
    show ?case by (rule exI [of _ "tx s"]) simp
  next
    case (Cons x xs)
    from assms [of x s] obtain a where a: "v x s = s\<lparr>tx := a\<rparr>" ..
    from Cons.IH [of "s\<lparr>tx := a\<rparr>"]
    obtain b where "fold v xs (s\<lparr>tx := a\<rparr>) = s\<lparr>tx := a\<rparr>\<lparr>tx := b\<rparr>" ..
    then have "fold v (x # xs) s = s\<lparr>tx := b\<rparr>"
      by (simp add: a)
    then show ?case by (rule exI)
  qed
  then show ?thesis
    unfolding ForEach_def .
qed

lemma TabComplete_inv:
  assumes "length (line_buf s) = EMBSH_LINE_BUF_SIZE" "line_pos s < EMBSH_LINE_BUF_SIZE"
  shows "length (line_buf (TabComplete reg s pr)) = EMBSH_LINE_BUF_SIZE
     \<and> line_pos (TabComplete reg s pr) < EMBSH_LINE_BUF_SIZE
     \<and> line_buf (TabComplete reg s pr) ! line_pos (TabComplete reg s pr) = NUL"
proof -
  let ?s0 = "s\<lparr>line_buf := (line_buf s)[line_pos s := NUL]\<rparr>"
  obtain m outp where ac: "AutoComplete reg (cstr (line_buf ?s0)) 64 = (m, outp)"
    by (cases "AutoComplete reg (cstr (line_buf ?s0)) 64")
  obtain e where e: "erase_line ?s0 = ?s0\<lparr>tx := e\<rparr>"
    using erase_line_frame [of ?s0] by blast
  let ?v = "\<lambda>cmd s'. if strncmp_eq (name cmd) (cstr (line_buf s')) (line_pos s')
                        then SessionWrite (SessionWrite s' (name cmd)) ''  '' else s'"
  have v: "\<exists>e. ?v c t = t\<lparr>tx := e\<rparr>" for c t
  proof (cases "strncmp_eq (name c) (cstr (line_buf t)) (line_pos t)")
    case True
    from SessionWrite_tx [of t "name c"]
    obtain a where a: "SessionWrite t (name c) = t\<lparr>tx := a\<rparr>" ..
    from SessionWrite_tx [of "t\<lparr>tx := a\<rparr>" "''  ''"]
    obtain b where "SessionWrite (t\<lparr>tx := a\<rparr>) ''  '' = t\<lparr>tx := a\<rparr>\<lparr>tx := b\<rparr>" ..
    with True a have "?v c t = t\<lparr>tx := b\<rparr>" by simp
    then show ?thesis by (rule exI)
  next
    case False
    then have "?v c t = t\<lparr>tx := tx t\<rparr>" by simp
    then show ?thesis by (rule exI)
  qed
  from SessionWrite_tx [of ?s0 CRLF]
  obtain a where a: "SessionWrite ?s0 CRLF = ?s0\<lparr>tx := a\<rparr>" ..
  from ForEach_tx [of ?v reg "?s0\<lparr>tx := a\<rparr>", OF v]
  obtain b where "ForEach reg ?v (?s0\<lparr>tx := a\<rparr>) = ?s0\<lparr>tx := a\<rparr>\<lparr>tx := b\<rparr>" ..
  then have b: "ForEach reg ?v (?s0\<lparr>tx := a\<rparr>) = ?s0\<lparr>tx := b\<rparr>"
    by simp
  from SessionWrite_tx [of "?s0\<lparr>tx := b\<rparr>" CRLF]
  obtain c where "SessionWrite (?s0\<lparr>tx := b\<rparr>) CRLF = ?s0\<lparr>tx := b\<rparr>\<lparr>tx := c\<rparr>" ..
  then have c: "SessionWrite (?s0\<lparr>tx := b\<rparr>) CRLF = ?s0\<lparr>tx := c\<rparr>"
    by simp
  from SessionWrite_tx [of "?s0\<lparr>tx := c\<rparr>" pr]
  obtain e2 where "SessionWrite (?s0\<lparr>tx := c\<rparr>) pr = ?s0\<lparr>tx := c\<rparr>\<lparr>tx := e2\<rparr>" ..
  then have e2: "SessionWrite (SessionWrite (ForEach reg ?v (SessionWrite ?s0 CRLF)) CRLF) pr
           = ?s0\<lparr>tx := e2\<rparr>"
    unfolding a b c by simp
  consider (one) "m = 1" | (many) "m > 1" | (none) "m = 0"
    by linarith
  then show ?thesis
  proof cases
    case one
    then show ?thesis
      unfolding TabComplete_def Let_def ac e using assms
      by (simp add: SessionWriteN_def memcpy_def EMBSH_LINE_BUF_SIZE_def)
  next
    case many
    then show ?thesis
      unfolding TabComplete_def Let_def ac e2 using assms
      by (simp add: SessionWriteN_def memcpy_def EMBSH_LINE_BUF_SIZE_def)
  next
    case none
    have "TabComplete reg s pr = ?s0"
      unfolding TabComplete_def Let_def ac using none by simp
    then show ?thesis
      using assms by simp
  qed
qed

lemma PushHistory_line: "line_buf (PushHistory s) = line_buf s" "line_pos (PushHistory s) = line_pos s"
  by (simp_all add: PushHistory_def Let_def)

lemma FilterIac_line:
  "line_buf (fst (FilterIac s b)) = line_buf s" "line_pos (fst (FilterIac s b)) = line_pos s"
  "telnet_mode (fst (FilterIac s b)) = telnet_mode s"
  "snd (FilterIac s b) = b \<or> snd (FilterIac s b) = NUL"
  by (auto simp: FilterIac_def split: IacState.splits)

lemma SessionWrite_line:
  "line_buf (SessionWrite s x) = line_buf s" "line_pos (SessionWrite s x) = line_pos s"
  "line_buf (SessionWriteN s x n) = line_buf s" "line_pos (SessionWriteN s x n) = line_pos s"
  "telnet_mode (SessionWrite s x) = telnet_mode s"
  by (simp_all add: SessionWrite_def SessionWriteN_def)

lemma peek_consume_line:
  "line_buf (peek_consume s) = line_buf s" "line_pos (peek_consume s) = line_pos s"
  by (simp_all add: peek_consume_def split: list.splits)

lemma ProcessByte_printable:
  assumes "\<not> telnet_mode s" "esc_state s = kNone" "printable c"
    "line_pos s < EMBSH_LINE_BUF_SIZE - 1"
  shows "ProcessByte reg s c pr =
           (SessionWriteN (s\<lparr>line_buf := (line_buf s)[line_pos s := c],
                             line_pos := line_pos s + 1\<rparr>) [c] 1, False)"
proof -
  have n: "c \<noteq> CHR 0x1B" "c \<noteq> CHR 0x03" "c \<noteq> CHR 0x04" "c \<noteq> CHR 0x7F" "c \<noteq> CHR 0x08"
    "c \<noteq> CHR 0x09" "c \<noteq> CHR 0x0D" "c \<noteq> CHR 0x0A"
    using assms(3) by (auto simp: printable_def)
  show ?thesis
    unfolding ProcessByte_def using assms n
    by (simp add: Let_def printable_def)
qed

lemma ProcessByte_backspace:
  assumes "\<not> telnet_mode s" "esc_state s = kNone" "line_pos s > 0"
  shows "ProcessByte reg s (CHR 0x7F) pr
           = (SessionWrite (s\<lparr>line_pos := line_pos s - 1\<rparr>) BS_SP_BS, False)"
  unfolding ProcessByte_def using assms by simp

text \<open>
  C2 does not hold as stated: in a fresh session, after the bytes \<^verbatim>\<open>a\<close>, \<^verbatim>\<open>b\<close> and a
  backspace the cursor is at 1 and \<open>line_buf[1]\<close> is still \<^verbatim>\<open>b\<close>; and after a second
  backspace and the byte \<^verbatim>\<open>c\<close> the buffer starts \<^verbatim>\<open>cb\<close> with the cursor at 1, so there is
  no NUL at the cursor after the append either.
\<close>

theorem backspace_leaves_no_terminator:
  "line_pos (feed help_registry ''> '' pipe_session (''ab'' @ [CHR 0x7F])) = 1
   \<and> line_buf (feed help_registry ''> '' pipe_session (''ab'' @ [CHR 0x7F])) ! 1 = CHR ''b''
   \<and> line_pos (feed help_registry ''> '' pipe_session (''ab'' @ [CHR 0x7F, CHR 0x7F] @ ''c'')) = 1
   \<and> line_buf (feed help_registry ''> '' pipe_session (''ab'' @ [CHR 0x7F, CHR 0x7F] @ ''c''))
        = (replicate EMBSH_LINE_BUF_SIZE NUL)[0 := CHR ''c'', 1 := CHR ''b'']"
  by (simp add: feed_def ProcessByte_printable ProcessByte_backspace printable_def
      pipe_session_def Session_default_def SessionWriteN_def SessionWrite_def
      EMBSH_LINE_BUF_SIZE_def list_update_swap)


text \<open>
  C2, amended. Every \<open>ProcessByte\<close> step keeps the buffer at its size and the cursor inside
  it (\<open>0 \<le> line_pos < EMBSH_LINE_BUF_SIZE\<close>). A step that changes the buffer or the cursor
  leaves \<open>line_buf[line_pos] = 0\<close>, with two exceptions that write no terminator: the
  append of a printable byte, which stores the byte at the old cursor and advances it, and
  a backspace, which only moves the cursor back. A step that reports a line as ready
  (Enter on a non-empty line) leaves the line terminated at the cursor.
\<close>

theorem ProcessByte_line_invariant:
  assumes "editor_inv s"
  shows "editor_inv (fst (ProcessByte reg s b pr))
     \<and> line_step s b (fst (ProcessByte reg s b pr))
     \<and> (snd (ProcessByte reg s b pr) \<longrightarrow>
          line_buf (fst (ProcessByte reg s b pr)) ! line_pos (fst (ProcessByte reg s b pr)) = NUL
          \<and> 0 < line_pos (fst (ProcessByte reg s b pr)))"
proof -
  have len: "length (line_buf s) = EMBSH_LINE_BUF_SIZE" and pos: "line_pos s < EMBSH_LINE_BUF_SIZE"
    using assms by (simp_all add: editor_inv_def)
  obtain t c where tc: "(if telnet_mode s then FilterIac s b else (s, b)) = (t, c)"
    by (cases "if telnet_mode s then FilterIac s b else (s, b)")
  have t: "line_buf t = line_buf s" "line_pos t = line_pos s" "telnet_mode t = telnet_mode s"
    and cb: "c = b \<or> (telnet_mode s \<and> c = NUL)"
    using tc FilterIac_line [of s b] by (auto split: if_splits)
  let ?r = "ProcessByte reg s b pr"
  have kept: "?thesis" if "line_buf (fst ?r) = line_buf s" "line_pos (fst ?r) = line_pos s" "\<not> snd ?r"
    using that len pos by (simp add: editor_inv_def line_step_def)
  have termd: "?thesis"
    if "length (line_buf (fst ?r)) = EMBSH_LINE_BUF_SIZE" "line_pos (fst ?r) < EMBSH_LINE_BUF_SIZE"
       "line_buf (fst ?r) ! line_pos (fst ?r) = NUL" "snd ?r \<longrightarrow> 0 < line_pos (fst ?r)"
    using that by (simp add: editor_inv_def line_step_def)
  show ?thesis
  proof (cases "telnet_mode s \<and> c = NUL")
    case True
    then have "?r = (t, False)"
      unfolding ProcessByte_def tc by simp
    with t show ?thesis by (intro kept) simp_all
  next
    case nc: False
    with cb have c: "c = b" by blast
    have nc': "(telnet_mode s \<and> c = NUL) = False"
      using nc by simp
    show ?thesis
    proof (cases "esc_state t")
      case kEsc
      then have "?r = (if c = CHR ''['' then (t\<lparr>esc_state := kBracket\<rparr>, False)
                       else (t\<lparr>esc_state := kNone\<rparr>, False))"
        unfolding ProcessByte_def tc using nc by (auto split del: if_split)
      with t show ?thesis by (intro kept) simp_all
    next
      case kBracket
      let ?t1 = "t\<lparr>esc_state := kNone\<rparr>"
      have t1: "length (line_buf ?t1) = EMBSH_LINE_BUF_SIZE" "line_pos ?t1 < EMBSH_LINE_BUF_SIZE"
        using t len pos by simp_all
      have r: "?r = (if c = CHR ''A'' then (HistoryUp ?t1, False)
                     else if c = CHR ''B'' then (HistoryDown ?t1, False) else (?t1, False))"
        unfolding ProcessByte_def tc using nc kBracket by (auto simp: Let_def split del: if_split)
      consider (up) "c = CHR ''A''" | (down) "c \<noteq> CHR ''A''" "c = CHR ''B''"
        | (other) "c \<noteq> CHR ''A''" "c \<noteq> CHR ''B''"
        by blast
      then show ?thesis
      proof cases
        case up
        then have "?r = (HistoryUp ?t1, False)" using r by simp
        then show ?thesis
          using HistoryUp_inv [OF t1] t len pos by (auto simp: editor_inv_def line_step_def)
      next
        case down
        then have "?r = (HistoryDown ?t1, False)" using r by simp
        then show ?thesis
          using HistoryDown_inv [OF t1] t len pos by (auto simp: editor_inv_def line_step_def)
      next
        case other
        then have "?r = (?t1, False)" using r by simp
        with t show ?thesis by (intro kept) simp_all
      qed
    next
      case kNone
      consider (esc) "c = CHR 0x1B"
        | (ctrl_c) "c \<noteq> CHR 0x1B" "c = CHR 0x03"
        | (ctrl_d) "c \<noteq> CHR 0x1B" "c \<noteq> CHR 0x03" "c = CHR 0x04"
        | (bs) "c \<noteq> CHR 0x1B" "c \<noteq> CHR 0x03" "c \<noteq> CHR 0x04" "c = CHR 0x7F \<or> c = CHR 0x08"
        | (tab) "c \<noteq> CHR 0x1B" "c \<noteq> CHR 0x03" "c \<noteq> CHR 0x04" "\<not> (c = CHR 0x7F \<or> c = CHR 0x08)"
            "c = CHR 0x09"
        | (enter) "c \<noteq> CHR 0x1B" "c \<noteq> CHR 0x03" "c \<noteq> CHR 0x04" "\<not> (c = CHR 0x7F \<or> c = CHR 0x08)"
            "c \<noteq> CHR 0x09" "c = CHR 0x0D \<or> c = CHR 0x0A"
        | (rest) "c \<noteq> CHR 0x1B" "c \<noteq> CHR 0x03" "c \<noteq> CHR 0x04" "\<not> (c = CHR 0x7F \<or> c = CHR 0x08)"
            "c \<noteq> CHR 0x09" "\<not> (c = CHR 0x0D \<or> c = CHR 0x0A)"
        by blast
      then show ?thesis
      proof cases
        case esc
        then have "?r = (t\<lparr>esc_state := kEsc\<rparr>, False)"
          unfolding ProcessByte_def tc using nc kNone by (auto split del: if_split)
        with t show ?thesis by (intro kept) simp_all
      next
        case ctrl_c
        then have "?r = (SessionWrite ((SessionWrite t (''^C'' @ CRLF))
                           \<lparr>line_pos := 0,
                             line_buf := (line_buf (SessionWrite t (''^C'' @ CRLF)))[0 := NUL],
                             hist_browsing := False\<rparr>) pr, False)"
          unfolding ProcessByte_def tc using nc kNone by (auto simp: Let_def split del: if_split)
        then show ?thesis
          using t len by (intro termd) (simp_all add: SessionWrite_line EMBSH_LINE_BUF_SIZE_def)
      next
        case ctrl_d
        then have "?r = (if line_pos t = 0
                         then ((SessionWrite t (CRLF @ ''Bye.'' @ CRLF))\<lparr>active := False\<rparr>, False)
                         else (t, False))"
          unfolding ProcessByte_def tc using nc kNone by (auto split del: if_split)
        with t show ?thesis by (intro kept) (simp_all add: SessionWrite_line)
      next
        case bs
        then have r: "?r = (if line_pos t > 0
                         then (SessionWrite (t\<lparr>line_pos := line_pos t - 1\<rparr>) BS_SP_BS, False)
                         else (t, False))"
          unfolding ProcessByte_def tc using nc kNone by (auto split del: if_split)
        show ?thesis
        proof (cases "line_pos t > 0")
          case True
          with r t len pos bs(4) c show ?thesis
            by (simp add: editor_inv_def line_step_def SessionWrite_line)
        next
          case False
          with r t show ?thesis by (intro kept) simp_all
        qed
      next
        case tab
        then have "?r = (TabComplete reg t pr, False)"
          unfolding ProcessByte_def tc using nc kNone by (auto split del: if_split)
        then show ?thesis
          using TabComplete_inv [of t reg pr] t len pos by (intro termd) simp_all
      next
        case enter
        define s2 where "s2 = (if telnet_mode (SessionWrite t CRLF) \<and> c = CHR 0x0D
                               then peek_consume (SessionWrite t CRLF) else SessionWrite t CRLF)"
        define s4 where "s4 = s2\<lparr>line_buf := (line_buf s2)[line_pos s2 := NUL],
                                hist_browsing := False\<rparr>"
        have enter': "(c = CHR 0x0D \<or> c = CHR 0x0A) = True"
          using enter(6) by simp
        have s2: "line_buf s2 = line_buf s" "line_pos s2 = line_pos s"
          using t by (simp_all add: s2_def SessionWrite_line peek_consume_line)
        have "?r = (if line_pos s4 > 0 then (PushHistory s4, True) else (SessionWrite s4 pr, False))"
          unfolding ProcessByte_def tc s4_def s2_def using kNone enter(1-5)
          by (simp add: Let_def nc' enter' split del: if_split cong: if_cong)
        then show ?thesis
          using s2 len pos
          by (intro termd) (simp_all add: s4_def PushHistory_line SessionWrite_line)
      next
        case rest
        then have r: "?r = (if line_pos t < EMBSH_LINE_BUF_SIZE - 1 \<and> printable c
                         then (SessionWriteN (t\<lparr>line_buf := (line_buf t)[line_pos t := c],
                                                  line_pos := line_pos t + 1\<rparr>) [c] 1, False)
                         else (t, False))"
          unfolding ProcessByte_def tc printable_def using kNone rest
          by (simp add: Let_def nc' split del: if_split cong: if_cong)
        show ?thesis
        proof (cases "line_pos t < EMBSH_LINE_BUF_SIZE - 1 \<and> printable c")
          case True
          with r t len pos c show ?thesis
            by (auto simp: editor_inv_def line_step_def SessionWrite_line EMBSH_LINE_BUF_SIZE_def)
        next
          case False
          with r t show ?thesis by (intro kept) auto
        qed
      qed
    qed
  qed
qed

theorem ProcessByte_line_invariant_witness:
  "editor_inv pipe_session
   \<and> editor_inv (fst (ProcessByte help_registry pipe_session (CHR ''l'') ''> ''))
   \<and> line_step pipe_session (CHR ''l'') (fst (ProcessByte help_registry pipe_session (CHR ''l'') ''> ''))
   \<and> editor_inv typed_ls_session
   \<and> snd (ProcessByte help_registry typed_ls_session (CHR 0x0D) ''> '')
   \<and> line_buf (fst (ProcessByte help_registry typed_ls_session (CHR 0x0D) ''> ''))
        ! line_pos (fst (ProcessByte help_registry typed_ls_session (CHR 0x0D) ''> '')) = NUL"
proof -
  have a: "editor_inv pipe_session" "editor_inv typed_ls_session"
    by (simp_all add: editor_inv_def pipe_session_def typed_ls_session_def Session_default_def
        EMBSH_LINE_BUF_SIZE_def)
  have b: "snd (ProcessByte help_registry typed_ls_session (CHR 0x0D) ''> '')"
    by (simp add: ProcessByte_def typed_ls_session_def Session_default_def Let_def
        SessionWrite_def)
  show ?thesis
    using ProcessByte_line_invariant [OF a(1), of help_registry "CHR ''l''" "''> ''"]
      ProcessByte_line_invariant [OF a(2), of help_registry "CHR 0x0D" "''> ''"] a b
    by blast
qed

subsection \<open>Executing a blank line\<close>

lemma skip_ws_all:
  "i \<le> len \<Longrightarrow> \<forall>j. i \<le> j \<and> j < len \<longrightarrow> cmd ! j = CHR '' '' \<or> cmd ! j = CHR 0x09 \<Longrightarrow>
     snd (skip_ws cmd len i) = len"
proof (induction cmd len i rule: skip_ws.induct)
  case (1 cmd len i)
  show ?case
  proof (cases "i < len")
    case True
    with "1.prems" have ws: "cmd ! i = CHR '' '' \<or> cmd ! i = CHR 0x09"
      by simp
    have "snd (skip_ws (cmd[i := NUL]) len (Suc i)) = len"
    proof (rule "1.IH")
      show "i < len \<and> (cmd ! i = CHR '' '' \<or> cmd ! i = CHR 0x09)"
        using True ws by simp
      show "Suc i \<le> len"
        using True by simp
      show "\<forall>j. Suc i \<le> j \<and> j < len \<longrightarrow>
              cmd[i := NUL] ! j = CHR '' '' \<or> cmd[i := NUL] ! j = CHR 0x09"
        using "1.prems"(2) by (simp add: Suc_le_eq)
    qed
    with True ws show ?thesis
      by (subst skip_ws.simps) simp
  next
    case False
    with "1.prems"(1) show ?thesis
      by (subst skip_ws.simps) simp
  qed
qed

lemma ShellSplit_all_ws:
  assumes "\<forall>j < len. cmd ! j = CHR '' '' \<or> cmd ! j = CHR 0x09"
  shows "fst (ShellSplit cmd len) = 0"
proof -
  have "snd (skip_ws cmd len 0) = len"
    using assms by (intro skip_ws_all) auto
  then obtain cmd1 where "skip_ws cmd len 0 = (cmd1, len)"
    by (cases "skip_ws cmd len 0") auto
  then have "snd (ShellSplit_loop cmd len 0 []) = []"
    by (subst ShellSplit_loop.simps) simp
  then show ?thesis
    by (auto simp: ShellSplit_def split: prod.splits)
qed

text \<open>
  C10. When the first \<open>line_pos\<close> bytes of the line buffer are all spaces and tabs,
  \<open>ExecuteLine\<close> returns with the session (its buffers, flags and the bytes written so far)
  and the thread-local sink exactly as they were, whatever the registry holds and
  whatever lies behind the message buffer: no built-in runs, no registered command is
  looked up or called, and no message is written.
\<close>

theorem ExecuteLine_whitespace_noop:
  assumes "\<forall>j < line_pos s. line_buf s ! j = CHR '' '' \<or> line_buf s ! j = CHR 0x09"
  shows "ExecuteLine reg behind (s, out) = (s, out)"
proof -
  have "fst (ShellSplit (take (line_pos s + 1) (line_buf s)) (line_pos s)) = 0"
    using assms by (intro ShellSplit_all_ws) simp
  then obtain cmd' argv where
    "ShellSplit (take (line_pos s + 1) (line_buf s)) (line_pos s) = (0, cmd', argv)"
    by (cases "ShellSplit (take (line_pos s + 1) (line_buf s)) (line_pos s)") auto
  then show ?thesis
    by (simp add: ExecuteLine_def)
qed

theorem ExecuteLine_whitespace_noop_witness:
  "line_buf blank_line_session ! 0 = CHR '' ''
   \<and> line_buf blank_line_session ! 1 = CHR '' ''
   \<and> line_buf blank_line_session ! 2 = CHR 0x09
   \<and> line_pos blank_line_session = 3
   \<and> write_fn blank_line_session = Some PosixWrite
   \<and> ExecuteLine help_registry []
         (blank_line_session, \<lparr>write = None, write_ctx = None\<rparr>)
       = (blank_line_session, \<lparr>write = None, write_ctx = None\<rparr>)"
proof -
  have h: "\<forall>j < line_pos blank_line_session.
      line_buf blank_line_session ! j = CHR '' '' \<or> line_buf blank_line_session ! j = CHR 0x09"
    by (simp add: blank_line_session_def Session_default_def nth_Cons' less_Suc_eq
        eval_nat_numeral)
  show ?thesis
    using ExecuteLine_whitespace_noop
            [OF h, of help_registry "[]" "\<lparr>write = None, write_ctx = None\<rparr>"] h
    by (simp add: blank_line_session_def Session_default_def)
qed

subsection \<open>The telnet IAC automaton\<close>

text \<open>
  C4. \<open>FilterIac\<close> is the four-state automaton of the design: in NORMAL, 0xFF goes to IAC
  and is consumed, any other byte is returned unchanged and the state stays NORMAL; in
  IAC, 0xFB..0xFE go to NEGO, 0xFA goes to SUB, 0xFF goes to NORMAL and is returned as a
  literal 0xFF, any other byte goes to NORMAL, consumed; in NEGO every byte goes to NORMAL,
  consumed; in SUB, 0xFF goes to IAC and every other byte stays in SUB, consumed. Nothing
  but \<open>iac_state\<close> changes. Consumed means that the returned byte is NUL.
\<close>

theorem FilterIac_automaton:
  "(iac_state s = kNormal \<and> b = CHR 0xFF \<longrightarrow>
      FilterIac s b = (s\<lparr>iac_state := kIac\<rparr>, NUL))
   \<and> (iac_state s = kNormal \<and> b \<noteq> CHR 0xFF \<longrightarrow>
      FilterIac s b = (s, b))
   \<and> (iac_state s = kIac \<and> (0xFB::nat) \<le> of_char b \<and> of_char b \<le> (0xFE::nat) \<longrightarrow>
      FilterIac s b = (s\<lparr>iac_state := kNego\<rparr>, NUL))
   \<and> (iac_state s = kIac \<and> b = CHR 0xFA \<longrightarrow>
      FilterIac s b = (s\<lparr>iac_state := kSub\<rparr>, NUL))
   \<and> (iac_state s = kIac \<and> b = CHR 0xFF \<longrightarrow>
      FilterIac s b = (s\<lparr>iac_state := kNormal\<rparr>, CHR 0xFF))
   \<and> (iac_state s = kIac \<and> \<not> ((0xFA::nat) \<le> of_char b \<and> of_char b \<le> (0xFF::nat)) \<longrightarrow>
      FilterIac s b = (s\<lparr>iac_state := kNormal\<rparr>, NUL))
   \<and> (iac_state s = kNego \<longrightarrow>
      FilterIac s b = (s\<lparr>iac_state := kNormal\<rparr>, NUL))
   \<and> (iac_state s = kSub \<and> b = CHR 0xFF \<longrightarrow>
      FilterIac s b = (s\<lparr>iac_state := kIac\<rparr>, NUL))
   \<and> (iac_state s = kSub \<and> b \<noteq> CHR 0xFF \<longrightarrow>
      FilterIac s b = (s, NUL) \<and> iac_state (fst (FilterIac s b)) = kSub)"
  by (auto simp: FilterIac_def)

theorem FilterIac_automaton_witness:
  "FilterIac Session_default (CHR 0xFF) = (Session_default\<lparr>iac_state := kIac\<rparr>, NUL)
   \<and> FilterIac Session_default (CHR ''x'') = (Session_default, CHR ''x'')
   \<and> FilterIac (Session_default\<lparr>iac_state := kIac\<rparr>) (CHR 0xFB)
       = (Session_default\<lparr>iac_state := kNego\<rparr>, NUL)
   \<and> FilterIac (Session_default\<lparr>iac_state := kIac\<rparr>) (CHR 0xFA)
       = (Session_default\<lparr>iac_state := kSub\<rparr>, NUL)
   \<and> FilterIac (Session_default\<lparr>iac_state := kIac\<rparr>) (CHR 0xFF)
       = (Session_default\<lparr>iac_state := kNormal\<rparr>, CHR 0xFF)
   \<and> FilterIac (Session_default\<lparr>iac_state := kIac\<rparr>) (CHR 0xF0)
       = (Session_default\<lparr>iac_state := kNormal\<rparr>, NUL)
   \<and> FilterIac (Session_default\<lparr>iac_state := kNego\<rparr>) (CHR 0x01)
       = (Session_default\<lparr>iac_state := kNormal\<rparr>, NUL)
   \<and> FilterIac (Session_default\<lparr>iac_state := kSub\<rparr>) (CHR 0xFF)
       = (Session_default\<lparr>iac_state := kIac\<rparr>, NUL)
   \<and> FilterIac (Session_default\<lparr>iac_state := kSub\<rparr>) (CHR 0x1F)
       = (Session_default\<lparr>iac_state := kSub\<rparr>, NUL)"
  using FilterIac_automaton [of Session_default "CHR 0xFF"]
    FilterIac_automaton [of Session_default "CHR ''x''"]
    FilterIac_automaton [of "Session_default\<lparr>iac_state := kIac\<rparr>" "CHR 0xFB"]
    FilterIac_automaton [of "Session_default\<lparr>iac_state := kIac\<rparr>" "CHR 0xFA"]
    FilterIac_automaton [of "Session_default\<lparr>iac_state := kIac\<rparr>" "CHR 0xFF"]
    FilterIac_automaton [of "Session_default\<lparr>iac_state := kIac\<rparr>" "CHR 0xF0"]
    FilterIac_automaton [of "Session_default\<lparr>iac_state := kNego\<rparr>" "CHR 0x01"]
    FilterIac_automaton [of "Session_default\<lparr>iac_state := kSub\<rparr>" "CHR 0xFF"]
    FilterIac_automaton [of "Session_default\<lparr>iac_state := kSub\<rparr>" "CHR 0x1F"]
  by (simp add: Session_default_def)

subsection \<open>Telnet authentication\<close>

lemma FilterIac_auth:
  "authenticated (fst (FilterIac s b)) = authenticated s"
  "auth_attempts (fst (FilterIac s b)) = auth_attempts s"
  "tx (fst (FilterIac s b)) = tx s" "write_fn (fst (FilterIac s b)) = write_fn s"
  by (simp_all add: FilterIac_def split: IacState.splits)

lemma SessionWrite_auth:
  "authenticated (SessionWrite s x) = authenticated s"
  "auth_attempts (SessionWrite s x) = auth_attempts s"
  "authenticated (SessionWriteN s x n) = authenticated s"
  "auth_attempts (SessionWriteN s x n) = auth_attempts s"
  "write_fn (SessionWrite s x) = write_fn s"
  by (simp_all add: SessionWrite_def SessionWriteN_def)

lemma peek_consume_auth:
  "authenticated (peek_consume s) = authenticated s"
  "auth_attempts (peek_consume s) = auth_attempts s"
  "tx (peek_consume s) = tx s" "write_fn (peek_consume s) = write_fn s"
  by (simp_all add: peek_consume_def split: list.splits)

text \<open>What one iteration does, by what it compares.\<close>

lemma RunAuth_step_cases:
  assumes "username cfg = Some u" "password cfg = Some p"
  shows "(auth_submitted l s b = None \<longrightarrow>
           (\<exists>l' s'. RunAuth_step cfg l s b = Continue l' s'
              \<and> authenticated s' = authenticated s \<and> auth_attempts s' = auth_attempts s))
      \<and> (auth_submitted l s b = Some (u, p) \<longrightarrow>
           (\<exists>s'. RunAuth_step cfg l s b = Return s' \<and> authenticated s'
              \<and> auth_attempts s' = auth_attempts s))
      \<and> (\<forall>q. auth_submitted l s b = Some q \<and> q \<noteq> (u, p) \<longrightarrow>
           (\<exists>l' s'. RunAuth_step cfg l s b = Continue l' s'
              \<and> authenticated s' = authenticated s \<and> auth_attempts s' = auth_attempts s + 1
              \<and> (auth_attempts s + 1 < kMaxAttempts \<longrightarrow>
                    phase l' = kUser \<and> buf_pos l' = 0
                    \<and> (write_fn s \<noteq> None \<longrightarrow>
                          tx s' = tx s @ CRLF @ ''Invalid credentials. Try again.'' @ CRLF
                                    @ ''Username: ''))))"
proof -
  obtain t c where tc: "(if telnet_mode s then FilterIac s b else (s, b)) = (t, c)"
    by (cases "if telnet_mode s then FilterIac s b else (s, b)") blast
  have t: "authenticated t = authenticated s" "auth_attempts t = auth_attempts s"
    "tx t = tx s" "write_fn t = write_fn s"
    using tc FilterIac_auth [of s b] by (auto split: if_splits)
  consider (consumed) "telnet_mode s \<and> c = NUL"
    | (backspace) "\<not> (telnet_mode s \<and> c = NUL)" "c = CHR 0x7F \<or> c = CHR 0x08"
    | (enter_user) "\<not> (telnet_mode s \<and> c = NUL)" "\<not> (c = CHR 0x7F \<or> c = CHR 0x08)"
        "c = CHR 0x0D \<or> c = CHR 0x0A" "phase l = kUser"
    | (enter_pass) "\<not> (telnet_mode s \<and> c = NUL)" "\<not> (c = CHR 0x7F \<or> c = CHR 0x08)"
        "c = CHR 0x0D \<or> c = CHR 0x0A" "phase l = kPass"
    | (other) "\<not> (telnet_mode s \<and> c = NUL)" "\<not> (c = CHR 0x7F \<or> c = CHR 0x08)"
        "\<not> (c = CHR 0x0D \<or> c = CHR 0x0A)"
    by (cases "phase l") blast+
  then show ?thesis
  proof cases
    case consumed
    then have "auth_submitted l s b = None" "RunAuth_step cfg l s b = Continue l t"
      unfolding auth_submitted_def RunAuth_step_def tc by (auto split del: if_split)
    with t show ?thesis by simp
  next
    case backspace
    then have "auth_submitted l s b = None"
      and "RunAuth_step cfg l s b =
            (if buf_pos l > 0
             then Continue (l\<lparr>buf_pos := buf_pos l - 1\<rparr>) (SessionWrite t BS_SP_BS)
             else Continue l t)"
      unfolding auth_submitted_def RunAuth_step_def tc by (auto split del: if_split)
    with t show ?thesis by (simp add: SessionWrite_auth)
  next
    case enter_user
    define s2 where "s2 = SessionWrite (if telnet_mode t \<and> c = CHR 0x0D then peek_consume t else t) CRLF"
    have "auth_submitted l s b = None"
      using enter_user unfolding auth_submitted_def tc by (auto split del: if_split)
    moreover have "RunAuth_step cfg l s b =
        Continue (l\<lparr>user_buf := (user_buf l)[buf_pos l := NUL], phase := kPass, buf_pos := 0\<rparr>)
                 (SessionWrite s2 ''Password: '')"
      using enter_user unfolding RunAuth_step_def tc s2_def
      by (auto simp: Let_def split del: if_split)
    moreover have "authenticated s2 = authenticated s" "auth_attempts s2 = auth_attempts s"
      using t by (simp_all add: s2_def SessionWrite_auth peek_consume_auth)
    ultimately show ?thesis by (simp add: SessionWrite_auth)
  next
    case enter_pass
    define s2 where "s2 = SessionWrite (if telnet_mode t \<and> c = CHR 0x0D then peek_consume t else t) CRLF"
    define q where "q = (cstr (user_buf l), cstr ((pass_buf l)[buf_pos l := NUL]))"
    have s2: "authenticated s2 = authenticated s" "auth_attempts s2 = auth_attempts s"
      "write_fn s2 = write_fn s" "write_fn s \<noteq> None \<longrightarrow> tx s2 = tx s @ CRLF"
      using t by (simp_all add: s2_def SessionWrite_auth peek_consume_auth)
         (simp add: SessionWrite_def peek_consume_auth CRLF_def)
    have sub: "auth_submitted l s b = Some q"
      using enter_pass unfolding auth_submitted_def tc q_def by (auto split del: if_split)
    have eq: "(username cfg = Some (fst q) \<and> password cfg = Some (snd q)) \<longleftrightarrow> q = (u, p)"
      using assms by (cases q) auto
    have step: "RunAuth_step cfg l s b =
        (if q = (u, p)
         then Return (SessionWrite (s2\<lparr>authenticated := True\<rparr>) (''Login successful.'' @ CRLF))
         else if auth_attempts s2 + 1 < kMaxAttempts
              then Continue (l\<lparr>pass_buf := (pass_buf l)[buf_pos l := NUL], phase := kUser,
                               buf_pos := 0\<rparr>)
                     (SessionWrite (SessionWrite (s2\<lparr>auth_attempts := auth_attempts s2 + 1\<rparr>)
                                      (''Invalid credentials. Try again.'' @ CRLF))
                        ''Username: '')
              else Continue (l\<lparr>pass_buf := (pass_buf l)[buf_pos l := NUL]\<rparr>)
                     (s2\<lparr>auth_attempts := auth_attempts s2 + 1\<rparr>))"
      using enter_pass eq unfolding RunAuth_step_def tc s2_def [symmetric] q_def
      by (auto simp: Let_def s2_def split del: if_split cong: if_cong)
    show ?thesis
    proof (cases "q = (u, p)")
      case True
      with sub step s2 show ?thesis
        by (simp add: SessionWrite_auth)
    next
      case False
      with sub step s2 show ?thesis
        by (auto simp: SessionWrite_auth SessionWrite_def CRLF_def)
    qed
  next
    case other
    then have "auth_submitted l s b = None"
      unfolding auth_submitted_def tc by (auto split del: if_split)
    moreover have "\<exists>l' s'. RunAuth_step cfg l s b = Continue l' s'
              \<and> authenticated s' = authenticated s \<and> auth_attempts s' = auth_attempts s"
      using other t unfolding RunAuth_step_def tc
      by (auto simp: SessionWrite_auth)
    ultimately show ?thesis by simp
  qed
qed


lemma RunAuth_loop_compared:
  assumes "username cfg = Some u" "password cfg = Some p"
  shows "(authenticated (RunAuth_loop cfg l s)
            \<longleftrightarrow> authenticated s \<or> (u, p) \<in> set (auth_compared cfg l s))
     \<and> length (auth_compared cfg l s) \<le> kMaxAttempts - auth_attempts s
     \<and> auth_attempts (RunAuth_loop cfg l s)
         = auth_attempts s + length (filter (\<lambda>q. q \<noteq> (u, p)) (auth_compared cfg l s))"
  using assms
proof (induction cfg l s rule: RunAuth_loop.induct)
  case (1 cfg l s)
  note cfg = "1.prems"
  show ?case
  proof (cases "active s \<and> auth_attempts s < kMaxAttempts")
    case False
    then have "RunAuth_loop cfg l s = s"
      by (subst RunAuth_loop.simps) auto
    moreover from False have "auth_compared cfg l s = []"
      by (subst auth_compared.simps) auto
    ultimately show ?thesis by simp
  next
    case go: True
    show ?thesis
    proof (cases "rx s")
      case Nil
      with go have "RunAuth_loop cfg l s = s"
        by (subst RunAuth_loop.simps) simp
      moreover from go Nil have "auth_compared cfg l s = []"
        by (subst auth_compared.simps) simp
      ultimately show ?thesis by simp
    next
      case (Cons byte rest)
      let ?t = "s\<lparr>rx := rest\<rparr>"
      have loop: "RunAuth_loop cfg l s =
          (case RunAuth_step cfg l ?t byte of
             Continue l' s' \<Rightarrow> RunAuth_loop cfg l' s' | Return s' \<Rightarrow> s')"
        using go Cons by (subst RunAuth_loop.simps) simp
      have comp: "auth_compared cfg l s =
          (case auth_submitted l ?t byte of None \<Rightarrow> [] | Some q \<Rightarrow> [q]) @
          (case RunAuth_step cfg l ?t byte of
             Continue l' s' \<Rightarrow> auth_compared cfg l' s' | Return s' \<Rightarrow> [])"
        using go Cons by (subst auth_compared.simps) simp
      note sc = RunAuth_step_cases [OF cfg, of l ?t byte]
      have lt: "auth_attempts s < kMaxAttempts"
        using go by simp
      consider (none) "auth_submitted l ?t byte = None"
        | (hit) "auth_submitted l ?t byte = Some (u, p)"
        | (miss) q where "auth_submitted l ?t byte = Some q" "q \<noteq> (u, p)"
        by (cases "auth_submitted l ?t byte") auto
      then show ?thesis
      proof cases
        case none
        with sc obtain l' s' where st: "RunAuth_step cfg l ?t byte = Continue l' s'"
          and a: "authenticated s' = authenticated s" "auth_attempts s' = auth_attempts s"
          by auto
        from "1.IH" [OF go Cons st cfg] a none show ?thesis
          unfolding loop comp st by simp
      next
        case hit
        with sc obtain s' where st: "RunAuth_step cfg l ?t byte = Return s'"
          and a: "authenticated s'" "auth_attempts s' = auth_attempts s"
          by auto
        from a hit lt show ?thesis
          unfolding loop comp st by simp
      next
        case miss
        with sc obtain l' s' where st: "RunAuth_step cfg l ?t byte = Continue l' s'"
          and a: "authenticated s' = authenticated s" "auth_attempts s' = auth_attempts s + 1"
          by auto
        from "1.IH" [OF go Cons st cfg] a miss lt show ?thesis
          unfolding loop comp st by auto
      qed
    qed
  qed
qed

lemma cstr_all: "NUL \<notin> set xs \<Longrightarrow> cstr xs = xs"
  unfolding cstr_def by (induction xs) auto

lemma cstr_terminated:
  assumes "n < length xs" "NUL \<notin> set (take n xs)"
  shows "cstr (xs[n := NUL]) = take n xs"
proof -
  have "xs[n := NUL] = take n xs @ NUL # drop (Suc n) xs"
    using assms(1) by (rule upd_conv_take_nth_drop)
  then show ?thesis
    using assms(2) by (simp add: cstr_append_NUL cstr_all)
qed

lemma FilterIac_link:
  "telnet_mode (fst (FilterIac s b)) = telnet_mode s"
  "active (fst (FilterIac s b)) = active s"
  "rx (fst (FilterIac s b)) = rx s"
  by (simp_all add: FilterIac_def split: IacState.splits)

lemma SessionWrite_link:
  "telnet_mode (SessionWrite s x) = telnet_mode s"
  "active (SessionWrite s x) = active s"
  "rx (SessionWrite s x) = rx s"
  "iac_state (SessionWrite s x) = iac_state s"
  "telnet_mode (SessionWriteN s x n) = telnet_mode s"
  "active (SessionWriteN s x n) = active s"
  "rx (SessionWriteN s x n) = rx s"
  "iac_state (SessionWriteN s x n) = iac_state s"
  by (simp_all add: SessionWrite_def SessionWriteN_def)

lemma peek_consume_link:
  "telnet_mode (peek_consume s) = telnet_mode s"
  "active (peek_consume s) = active s"
  "iac_state (peek_consume s) = iac_state s"
  by (simp_all add: peek_consume_def split: list.splits)

lemma FilterIac_spec_iac:
  "iac_state (fst (FilterIac s b)) = fst (spec_iac (iac_state s) b)"
  "snd (FilterIac s b) = (case snd (spec_iac (iac_state s) b) of None \<Rightarrow> NUL | Some x \<Rightarrow> x)"
  by (simp_all add: FilterIac_def spec_iac_def NUL_def split: IacState.splits)

lemma spec_key_NUL: "spec_key NUL = None"
  by (simp add: spec_key_def NUL_def)

lemma spec_keys_paired:
  "spec_keys telnet st True (rx t) = spec_keys telnet st False (rx (peek_consume t))"
  by (cases "rx t") (simp_all add: peek_consume_def NUL_def)

text \<open>The keys of the pending input, one received byte unfolded.\<close>

lemma spec_keys_step:
  assumes tc: "(if telnet_mode s then FilterIac s b else (s, b)) = (t, c)"
  shows "spec_keys (telnet_mode s) (iac_state s) False (b # rx s)
     = (case (if telnet_mode s \<and> c = NUL then None else spec_key c) of
          None \<Rightarrow> [] | Some k \<Rightarrow> [k])
       @ spec_keys (telnet_mode s) (iac_state t) False
           (rx (if telnet_mode s \<and> c = CHR 0x0D then peek_consume t else t))"
proof (cases "telnet_mode s")
  case False
  with tc have "t = s" "c = b"
    by simp_all
  with False show ?thesis
    by simp
next
  case True
  with tc have t: "t = fst (FilterIac s b)" and c: "c = snd (FilterIac s b)"
    by (metis fst_conv, metis snd_conv)
  obtain st' out where so: "spec_iac (iac_state s) b = (st', out)"
    by (cases "spec_iac (iac_state s) b") blast
  have st: "iac_state t = st'" and cc: "c = (case out of None \<Rightarrow> NUL | Some x \<Rightarrow> x)"
    and r: "rx t = rx s"
    using FilterIac_spec_iac [of s b] so by (simp_all add: t c FilterIac_link)
  have nocr: "NUL \<noteq> CHR 0x0D"
    by (simp add: NUL_def)
  show ?thesis
  proof (cases out)
    case None
    with cc have "c = NUL" by simp
    with nocr show ?thesis
      using True so None st r by simp
  next
    case (Some x)
    with cc have x: "x = c" by simp
    show ?thesis
    proof (cases "c = NUL")
      case n: True
      with nocr show ?thesis
        using True so Some x st r by (simp add: spec_key_NUL)
    next
      case n: False
      show ?thesis
      proof (cases "c = CHR 0x0D")
        case cr: True
        then have k: "spec_key c = Some KeyEnter"
          by (simp add: spec_key_def)
        show ?thesis
          using True so Some x st cr k n spec_keys_paired [of True st' t] r by simp
      next
        case cr: False
        show ?thesis
          using True so Some x st cr n r by simp
      qed
    qed
  qed
qed

lemma spec_pairs_edit:
  "\<not> (k = KeyEnter \<and> (\<exists>usr cur. e = AtPass usr cur))
     \<Longrightarrow> spec_pairs e (k # ks) = spec_pairs (spec_edit e k) ks"
  by (cases e; cases k) simp_all

lemma until_match_set: "x \<in> set (until_match x ys) \<longleftrightarrow> x \<in> set ys"
  by (induction ys) auto


lemma take_Suc_update: "n < length xs \<Longrightarrow> take (Suc n) (xs[n := x]) = take n xs @ [x]"
  by (simp add: take_Suc_conv_app_nth)

lemma take_pred_butlast: "n \<le> length xs \<Longrightarrow> take (n - 1) xs = butlast (take n xs)"
  by (simp add: butlast_take)

text \<open>
  One iteration against the design: the entry read back from the buffers after the
  iteration is the entry before it, edited by the key the received byte stands for.
\<close>

lemma RunAuth_step_refines:
  assumes cfg: "username cfg = Some u" "password cfg = Some p"
    and inv: "auth_inv l"
    and tc: "(if telnet_mode s then FilterIac s b else (s, b)) = (t, c)"
  defines "K \<equiv> (if telnet_mode s \<and> c = NUL then None else spec_key c)"
    and "r \<equiv> rx (if telnet_mode s \<and> c = CHR 0x0D then peek_consume t else t)"
  shows "(\<not> (K = Some KeyEnter \<and> phase l = kPass) \<longrightarrow>
            auth_submitted l s b = None
            \<and> (\<exists>l' t'. RunAuth_step cfg l s b = Continue l' t'
                 \<and> iac_state t' = iac_state t \<and> telnet_mode t' = telnet_mode s
                 \<and> active t' = active s \<and> rx t' = r
                 \<and> auth_attempts t' = auth_attempts s
                 \<and> auth_inv l'
                 \<and> auth_entry l'
                     = (case K of None \<Rightarrow> auth_entry l | Some k \<Rightarrow> spec_edit (auth_entry l) k)))
      \<and> (K = Some KeyEnter \<and> phase l = kPass \<longrightarrow>
            (\<exists>usr cur. auth_entry l = AtPass usr cur
               \<and> auth_submitted l s b = Some (usr, cur)
               \<and> ((usr, cur) \<noteq> (u, p) \<longrightarrow>
                     (\<exists>l' t'. RunAuth_step cfg l s b = Continue l' t'
                        \<and> iac_state t' = iac_state t \<and> telnet_mode t' = telnet_mode s
                        \<and> active t' = active s \<and> rx t' = r
                        \<and> auth_attempts t' = auth_attempts s + 1
                        \<and> auth_inv l'
                        \<and> (auth_attempts s + 1 < kMaxAttempts \<longrightarrow> auth_entry l' = AtUser [])))))"
proof -
  have t: "telnet_mode t = telnet_mode s" "active t = active s" "rx t = rx s"
    "auth_attempts t = auth_attempts s"
    using tc FilterIac_link [of s b] FilterIac_auth [of s b] by (auto split: if_splits)
  have nocr: "NUL \<noteq> CHR 0x0D"
    by (simp add: NUL_def)
  have len: "length (user_buf l) = 64" "length (pass_buf l) = 64" "buf_pos l < 64"
    and nn: "NUL \<notin> set (take (buf_pos l) (if phase l = kUser then user_buf l else pass_buf l))"
    using inv by (simp_all add: auth_inv_def)
  have ph: "phase l \<noteq> kUser \<longleftrightarrow> phase l = kPass"
    by (cases "phase l") simp_all
  consider (consumed) "telnet_mode s \<and> c = NUL"
    | (backspace) "\<not> (telnet_mode s \<and> c = NUL)" "c = CHR 0x7F \<or> c = CHR 0x08"
    | (enter_user) "\<not> (telnet_mode s \<and> c = NUL)" "\<not> (c = CHR 0x7F \<or> c = CHR 0x08)"
        "c = CHR 0x0D \<or> c = CHR 0x0A" "phase l = kUser"
    | (enter_pass) "\<not> (telnet_mode s \<and> c = NUL)" "\<not> (c = CHR 0x7F \<or> c = CHR 0x08)"
        "c = CHR 0x0D \<or> c = CHR 0x0A" "phase l = kPass"
    | (char) "\<not> (telnet_mode s \<and> c = NUL)" "\<not> (c = CHR 0x7F \<or> c = CHR 0x08)"
        "\<not> (c = CHR 0x0D \<or> c = CHR 0x0A)"
        "(0x20::nat) \<le> of_char c \<and> of_char c < (0x7F::nat)"
    | (other) "\<not> (telnet_mode s \<and> c = NUL)" "\<not> (c = CHR 0x7F \<or> c = CHR 0x08)"
        "\<not> (c = CHR 0x0D \<or> c = CHR 0x0A)"
        "\<not> ((0x20::nat) \<le> of_char c \<and> of_char c < (0x7F::nat))"
    by (cases "phase l") blast+
  then show ?thesis
  proof cases
    case consumed
    then have K: "K = None"
      by (simp add: K_def)
    have st: "RunAuth_step cfg l s b = Continue l t" "auth_submitted l s b = None"
      using consumed unfolding auth_submitted_def RunAuth_step_def tc
      by (auto split del: if_split)
    have "r = rx t"
      using consumed nocr by (simp add: r_def)
    with K st t inv show ?thesis
      by simp
  next
    case backspace
    have K: "K = Some KeyBackspace"
      using backspace by (auto simp: K_def spec_key_def)
    have r: "r = rx t"
      using backspace by (auto simp: r_def)
    define l' where "l' = (if buf_pos l > 0 then l\<lparr>buf_pos := buf_pos l - 1\<rparr> else l)"
    define t' where "t' = (if buf_pos l > 0 then SessionWrite t BS_SP_BS else t)"
    have sub: "auth_submitted l s b = None"
      using backspace unfolding auth_submitted_def tc by (auto split del: if_split)
    have "RunAuth_step cfg l s b =
            (if buf_pos l > 0
             then Continue (l\<lparr>buf_pos := buf_pos l - 1\<rparr>) (SessionWrite t BS_SP_BS)
             else Continue l t)"
      using backspace unfolding RunAuth_step_def tc by (auto split del: if_split)
    then have step: "RunAuth_step cfg l s b = Continue l' t'"
      by (simp add: l'_def t'_def)
    have fr: "iac_state t' = iac_state t" "telnet_mode t' = telnet_mode s"
      "active t' = active s" "rx t' = r" "auth_attempts t' = auth_attempts s"
      using t r by (simp_all add: t'_def SessionWrite_link SessionWrite_auth)
    have bt: "take (buf_pos l - Suc 0) xs = butlast (take (buf_pos l) xs)" if "length xs = 64" for xs
      using that len(3) take_pred_butlast [of "buf_pos l" xs] by simp
    have inv': "auth_inv l'"
      using len nn unfolding auth_inv_def l'_def
      by (auto simp: bt dest: in_set_butlastD)
    have e: "auth_entry l' = spec_edit (auth_entry l) KeyBackspace"
      using len unfolding auth_entry_def l'_def by (auto simp: bt)
    from K sub step fr inv' e show ?thesis
      by simp
  next
    case enter_user
    have K: "K = Some KeyEnter"
      using enter_user by (auto simp: K_def spec_key_def)
    define s2 where "s2 = SessionWrite (if telnet_mode t \<and> c = CHR 0x0D then peek_consume t else t) CRLF"
    define l' where "l' = l\<lparr>user_buf := (user_buf l)[buf_pos l := NUL], phase := kPass, buf_pos := 0\<rparr>"
    have sub: "auth_submitted l s b = None"
      using enter_user unfolding auth_submitted_def tc by (auto split del: if_split)
    have step: "RunAuth_step cfg l s b = Continue l' (SessionWrite s2 ''Password: '')"
      using enter_user unfolding RunAuth_step_def tc s2_def l'_def
      by (auto simp: Let_def split del: if_split)
    have fr: "iac_state (SessionWrite s2 ''Password: '') = iac_state t"
      "telnet_mode (SessionWrite s2 ''Password: '') = telnet_mode s"
      "active (SessionWrite s2 ''Password: '') = active s"
      "rx (SessionWrite s2 ''Password: '') = r"
      "auth_attempts (SessionWrite s2 ''Password: '') = auth_attempts s"
      using t by (simp_all add: s2_def r_def SessionWrite_link SessionWrite_auth
          peek_consume_link peek_consume_auth)
    have inv': "auth_inv l'"
      using len unfolding auth_inv_def l'_def by simp
    have "cstr ((user_buf l)[buf_pos l := NUL]) = take (buf_pos l) (user_buf l)"
      using len nn enter_user(4) by (intro cstr_terminated) simp_all
    then have e: "auth_entry l' = spec_edit (auth_entry l) KeyEnter"
      using enter_user(4) unfolding auth_entry_def l'_def by simp
    from K sub step fr inv' e enter_user(4) show ?thesis
      by simp
  next
    case enter_pass
    have K: "K = Some KeyEnter"
      using enter_pass by (auto simp: K_def spec_key_def)
    define s2 where "s2 = SessionWrite (if telnet_mode t \<and> c = CHR 0x0D then peek_consume t else t) CRLF"
    define q where "q = (cstr (user_buf l), cstr ((pass_buf l)[buf_pos l := NUL]))"
    define l1 where "l1 = l\<lparr>pass_buf := (pass_buf l)[buf_pos l := NUL]\<rparr>"
    have s2: "iac_state s2 = iac_state t" "telnet_mode s2 = telnet_mode s"
      "active s2 = active s" "rx s2 = r" "auth_attempts s2 = auth_attempts s"
      using t by (simp_all add: s2_def r_def SessionWrite_link SessionWrite_auth
          peek_consume_link peek_consume_auth)
    have cur: "cstr ((pass_buf l)[buf_pos l := NUL]) = take (buf_pos l) (pass_buf l)"
      using len nn enter_pass(4) by (intro cstr_terminated) simp_all
    have ent: "auth_entry l = AtPass (fst q) (snd q)"
      using enter_pass(4) cur unfolding auth_entry_def q_def by simp
    have sub: "auth_submitted l s b = Some q"
      using enter_pass unfolding auth_submitted_def tc q_def by (auto split del: if_split)
    have eq: "(username cfg = Some (fst q) \<and> password cfg = Some (snd q)) \<longleftrightarrow> q = (u, p)"
      using cfg by (cases q) auto
    have step: "RunAuth_step cfg l s b =
        (if q = (u, p)
         then Return (SessionWrite (s2\<lparr>authenticated := True\<rparr>) (''Login successful.'' @ CRLF))
         else if auth_attempts s2 + 1 < kMaxAttempts
              then Continue (l\<lparr>pass_buf := (pass_buf l)[buf_pos l := NUL], phase := kUser,
                               buf_pos := 0\<rparr>)
                     (SessionWrite (SessionWrite (s2\<lparr>auth_attempts := auth_attempts s2 + 1\<rparr>)
                                      (''Invalid credentials. Try again.'' @ CRLF))
                        ''Username: '')
              else Continue (l\<lparr>pass_buf := (pass_buf l)[buf_pos l := NUL]\<rparr>)
                     (s2\<lparr>auth_attempts := auth_attempts s2 + 1\<rparr>))"
      using enter_pass eq unfolding RunAuth_step_def tc s2_def [symmetric] q_def
      by (auto simp: Let_def s2_def split del: if_split cong: if_cong)
    have miss: "\<exists>l' t'. RunAuth_step cfg l s b = Continue l' t'
                  \<and> iac_state t' = iac_state t \<and> telnet_mode t' = telnet_mode s
                  \<and> active t' = active s \<and> rx t' = r
                  \<and> auth_attempts t' = auth_attempts s + 1
                  \<and> auth_inv l'
                  \<and> (auth_attempts s + 1 < kMaxAttempts \<longrightarrow> auth_entry l' = AtUser [])"
      if ne: "q \<noteq> (u, p)"
    proof (cases "auth_attempts s + 1 < kMaxAttempts")
      case True
      define l' where "l' = l\<lparr>pass_buf := (pass_buf l)[buf_pos l := NUL], phase := kUser,
                               buf_pos := 0\<rparr>"
      have "auth_inv l'" "auth_entry l' = AtUser []"
        using len unfolding auth_inv_def auth_entry_def l'_def by simp_all
      with True ne step s2 show ?thesis
        by (simp add: l'_def SessionWrite_link SessionWrite_auth)
    next
      case False
      have "auth_inv (l\<lparr>pass_buf := (pass_buf l)[buf_pos l := NUL]\<rparr>)"
        using len nn enter_pass(4) unfolding auth_inv_def by simp
      with False ne step s2 show ?thesis
        by simp
    qed
    from K enter_pass(4) ent sub miss show ?thesis
      by (cases q) auto
  next
    case char
    have K: "K = Some (KeyChar c)"
      using char by (auto simp: K_def spec_key_def)
    have r: "r = rx t"
      using char by (auto simp: r_def)
    have cn: "c \<noteq> NUL"
      using char(4) by (auto simp: NUL_def)
    have sub: "auth_submitted l s b = None"
      using char unfolding auth_submitted_def tc by (auto split del: if_split)
    have step: "RunAuth_step cfg l s b =
        (if phase l = kUser \<and> buf_pos l < 64 - 1 then
           Continue (l\<lparr>user_buf := (user_buf l)[buf_pos l := c], buf_pos := buf_pos l + 1\<rparr>)
                    (SessionWriteN t [c] 1)
         else if phase l = kPass \<and> buf_pos l < 64 - 1 then
           Continue (l\<lparr>pass_buf := (pass_buf l)[buf_pos l := c], buf_pos := buf_pos l + 1\<rparr>)
                    (SessionWrite t ''*'')
         else Continue l t)"
      using char unfolding RunAuth_step_def tc by (auto split del: if_split)
    show ?thesis
    proof (cases "buf_pos l < 63")
      case room: True
      show ?thesis
      proof (cases "phase l")
        case kUser
        define l' where "l' = l\<lparr>user_buf := (user_buf l)[buf_pos l := c], buf_pos := buf_pos l + 1\<rparr>"
        have tk: "take (Suc (buf_pos l)) ((user_buf l)[buf_pos l := c]) = take (buf_pos l) (user_buf l) @ [c]"
          using len by (intro take_Suc_update) simp
        have "auth_inv l'"
          using len nn kUser room cn unfolding auth_inv_def l'_def by (simp add: tk)
        moreover have "auth_entry l' = spec_edit (auth_entry l) (KeyChar c)"
          using len kUser room unfolding auth_entry_def l'_def by (simp add: tk spec_type_def)
        moreover have "RunAuth_step cfg l s b = Continue l' (SessionWriteN t [c] 1)"
          using step kUser room by (simp add: l'_def)
        ultimately show ?thesis
          using K sub kUser t r by (simp add: SessionWrite_link SessionWrite_auth)
      next
        case kPass
        define l' where "l' = l\<lparr>pass_buf := (pass_buf l)[buf_pos l := c], buf_pos := buf_pos l + 1\<rparr>"
        have tk: "take (Suc (buf_pos l)) ((pass_buf l)[buf_pos l := c]) = take (buf_pos l) (pass_buf l) @ [c]"
          using len by (intro take_Suc_update) simp
        have "auth_inv l'"
          using len nn kPass room cn unfolding auth_inv_def l'_def by (simp add: tk)
        moreover have "auth_entry l' = spec_edit (auth_entry l) (KeyChar c)"
          using len kPass room unfolding auth_entry_def l'_def by (simp add: tk spec_type_def)
        moreover have "RunAuth_step cfg l s b = Continue l' (SessionWrite t ''*'')"
          using step kPass room by (simp add: l'_def)
        ultimately show ?thesis
          using K sub kPass t r by (simp add: SessionWrite_link SessionWrite_auth)
      qed
    next
      case full: False
      then have st: "RunAuth_step cfg l s b = Continue l t"
        using step by simp
      have "auth_entry l = spec_edit (auth_entry l) (KeyChar c)"
        using len full unfolding auth_entry_def by (simp add: spec_type_def)
      with K sub st t r inv show ?thesis
        by simp
    qed
  next
    case other
    have K: "K = None"
      using other by (auto simp: K_def spec_key_def)
    have r: "r = rx t"
      using other by (auto simp: r_def)
    have "auth_submitted l s b = None"
      using other unfolding auth_submitted_def tc by (auto split del: if_split)
    moreover have "RunAuth_step cfg l s b = Continue l t"
      using other unfolding RunAuth_step_def tc by (auto split del: if_split)
    ultimately show ?thesis
      using K t r inv by simp
  qed
qed


lemma auth_entry_AtPass: "(\<exists>usr cur. auth_entry l = AtPass usr cur) \<longleftrightarrow> phase l = kPass"
  by (cases "phase l") (simp_all add: auth_entry_def)

text \<open>
  The pairs the loop compares are the pairs of the design: those the keys of the pending
  input submit from the entry in the buffers, as far as the attempts left allow, up to
  the first that matches.
\<close>

lemma auth_compared_spec:
  assumes "username cfg = Some u" "password cfg = Some p" "auth_inv l"
  shows "auth_compared cfg l s =
     (if active s
      then until_match (u, p)
             (take (kMaxAttempts - auth_attempts s)
                (spec_pairs (auth_entry l)
                   (spec_keys (telnet_mode s) (iac_state s) False (rx s))))
      else [])"
  using assms
proof (induction cfg l s rule: RunAuth_loop.induct)
  case (1 cfg l s)
  note cfg = "1.prems"(1,2) and inv = "1.prems"(3)
  show ?case
  proof (cases "active s \<and> auth_attempts s < kMaxAttempts")
    case False
    then have "auth_compared cfg l s = []"
      by (subst auth_compared.simps) auto
    with False show ?thesis
      by auto
  next
    case go: True
    then have act: "active s" and lt: "auth_attempts s < kMaxAttempts"
      by simp_all
    show ?thesis
    proof (cases "rx s")
      case Nil
      with go have "auth_compared cfg l s = []"
        by (subst auth_compared.simps) simp
      with Nil show ?thesis
        by simp
    next
      case (Cons byte rest)
      let ?t = "s\<lparr>rx := rest\<rparr>"
      have comp: "auth_compared cfg l s =
          (case auth_submitted l ?t byte of None \<Rightarrow> [] | Some q \<Rightarrow> [q]) @
          (case RunAuth_step cfg l ?t byte of
             Continue l' s' \<Rightarrow> auth_compared cfg l' s' | Return s' \<Rightarrow> [])"
        using go Cons by (subst auth_compared.simps) simp
      obtain t c where tc: "(if telnet_mode ?t then FilterIac ?t byte else (?t, byte)) = (t, c)"
        by (cases "if telnet_mode ?t then FilterIac ?t byte else (?t, byte)") blast
      define K where "K = (if telnet_mode ?t \<and> c = NUL then None else spec_key c)"
      define r where "r = rx (if telnet_mode ?t \<and> c = CHR 0x0D then peek_consume t else t)"
      define ks where "ks = spec_keys (telnet_mode s) (iac_state t) False r"
      have keys: "spec_keys (telnet_mode s) (iac_state s) False (rx s)
                    = (case K of None \<Rightarrow> [] | Some k \<Rightarrow> [k]) @ ks"
        using spec_keys_step [OF tc] Cons by (simp add: K_def r_def ks_def)
      note rf = RunAuth_step_refines [OF cfg inv tc, folded K_def r_def]
      show ?thesis
      proof (cases "K = Some KeyEnter \<and> phase l = kPass")
        case plain: False
        with rf obtain l' t' where sub: "auth_submitted l ?t byte = None"
          and st: "RunAuth_step cfg l ?t byte = Continue l' t'"
          and fr: "iac_state t' = iac_state t" "telnet_mode t' = telnet_mode s"
            "active t' = active s" "rx t' = r" "auth_attempts t' = auth_attempts s"
          and inv': "auth_inv l'"
          and e: "auth_entry l'
                    = (case K of None \<Rightarrow> auth_entry l | Some k \<Rightarrow> spec_edit (auth_entry l) k)"
          by auto
        have "spec_pairs (auth_entry l) ((case K of None \<Rightarrow> [] | Some k \<Rightarrow> [k]) @ ks)
                = spec_pairs (auth_entry l') ks"
        proof (cases K)
          case None
          with e show ?thesis by simp
        next
          case (Some k)
          with plain have "\<not> (k = KeyEnter \<and> (\<exists>usr cur. auth_entry l = AtPass usr cur))"
            by (simp add: auth_entry_AtPass)
          then show ?thesis
            using e Some by (simp add: spec_pairs_edit)
        qed
        with "1.IH" [OF go Cons st cfg inv'] sub fr act show ?thesis
          unfolding comp st keys ks_def by simp
      next
        case submit: True
        with rf obtain usr cur where ent: "auth_entry l = AtPass usr cur"
          and sub: "auth_submitted l ?t byte = Some (usr, cur)"
          and miss: "(usr, cur) \<noteq> (u, p) \<longrightarrow>
                     (\<exists>l' t'. RunAuth_step cfg l ?t byte = Continue l' t'
                        \<and> iac_state t' = iac_state t \<and> telnet_mode t' = telnet_mode s
                        \<and> active t' = active s \<and> rx t' = r
                        \<and> auth_attempts t' = auth_attempts s + 1
                        \<and> auth_inv l'
                        \<and> (auth_attempts s + 1 < kMaxAttempts \<longrightarrow> auth_entry l' = AtUser []))"
          by auto
        obtain n where n: "kMaxAttempts - auth_attempts s = Suc n"
          and n': "kMaxAttempts - (auth_attempts s + 1) = n"
          using lt by (cases "kMaxAttempts - auth_attempts s") auto
        have rhs: "take (kMaxAttempts - auth_attempts s)
                (spec_pairs (auth_entry l)
                   (spec_keys (telnet_mode s) (iac_state s) False (rx s)))
              = (usr, cur) # take n (spec_pairs (AtUser []) ks)"
          using submit by (simp add: keys ent n)
        show ?thesis
        proof (cases "(usr, cur) = (u, p)")
          case True
          with RunAuth_step_cases [OF cfg, of l ?t byte] sub
          obtain s' where st: "RunAuth_step cfg l ?t byte = Return s'"
            by auto
          from True sub act show ?thesis
            unfolding comp st rhs by simp
        next
          case False
          with miss obtain l' t' where st: "RunAuth_step cfg l ?t byte = Continue l' t'"
            and fr: "iac_state t' = iac_state t" "telnet_mode t' = telnet_mode s"
              "active t' = active s" "rx t' = r" "auth_attempts t' = auth_attempts s + 1"
            and inv': "auth_inv l'"
            and e: "auth_attempts s + 1 < kMaxAttempts \<longrightarrow> auth_entry l' = AtUser []"
            by auto
          have "take n (spec_pairs (auth_entry l') ks) = take n (spec_pairs (AtUser []) ks)"
          proof (cases "auth_attempts s + 1 < kMaxAttempts")
            case True
            with e show ?thesis by simp
          next
            case False
            with n' have "n = 0" by simp
            then show ?thesis by simp
          qed
          with "1.IH" [OF go Cons st cfg inv'] False sub fr act n' show ?thesis
            unfolding comp st rhs ks_def by auto
        qed
      qed
    qed
  qed
qed

lemma until_match_filter:
  "filter (\<lambda>q. q \<noteq> x) (until_match x ys) = takeWhile (\<lambda>q. q \<noteq> x) ys"
  by (induction ys) auto

lemma AuthLocals_init_entry: "auth_inv AuthLocals_init" "auth_entry AuthLocals_init = AtUser []"
  by (simp_all add: auth_inv_def auth_entry_def AuthLocals_init_def)

text \<open>
  C9. Let both credentials be configured and let \<open>RunAuth\<close> start on a session that is not
  authenticated and has no failed attempt, as the accept loop sets it up. The pairs the
  received bytes submit are those of the design (\<open>spec_submitted\<close>): they are computed from
  the bytes pending on the connection alone. Then, for every such byte sequence: the
  pairs \<open>RunAuth\<close> compares with the configured credentials are the first three submitted
  pairs at most, up to the first that equals the configured pair; the session is
  authenticated after the run exactly when one of the first three submitted pairs equals
  the configured pair, byte for byte; \<open>auth_attempts\<close> is the number of submitted pairs
  before the first match among the first three; at most three pairs are compared, and
  when \<open>auth_attempts\<close> has reached three the session is not authenticated and the loop
  does no further iteration; and an iteration that compares a mismatching pair with
  attempts left goes on with the username phase and an empty buffer, one more attempt
  counted, the session still not authenticated, having written the line break, the
  retry message and the username prompt. (A session that is not active runs no iteration
  and compares nothing.)
\<close>

theorem RunAuth_spec:
  assumes "username cfg = Some u" "password cfg = Some p"
    and "\<not> authenticated s" "auth_attempts s = 0"
  shows "(authenticated (RunAuth cfg s) \<longleftrightarrow> (u, p) \<in> set (RunAuth_compared cfg s))
     \<and> length (RunAuth_compared cfg s) \<le> 3
     \<and> auth_attempts (RunAuth cfg s)
         = length (filter (\<lambda>q. q \<noteq> (u, p)) (RunAuth_compared cfg s))
     \<and> (auth_attempts (RunAuth cfg s) = 3 \<longrightarrow> \<not> authenticated (RunAuth cfg s))
     \<and> (\<forall>l t. kMaxAttempts \<le> auth_attempts t \<longrightarrow>
           RunAuth_loop cfg l t = t \<and> auth_compared cfg l t = [])
     \<and> (\<forall>l t b q. auth_submitted l t b = Some q \<and> q \<noteq> (u, p)
                    \<and> auth_attempts t + 1 < kMaxAttempts \<longrightarrow>
           (\<exists>l' t'. RunAuth_step cfg l t b = Continue l' t'
              \<and> phase l' = kUser \<and> buf_pos l' = 0
              \<and> authenticated t' = authenticated t
              \<and> auth_attempts t' = auth_attempts t + 1
              \<and> (write_fn t \<noteq> None \<longrightarrow>
                    tx t' = tx t @ CRLF @ ''Invalid credentials. Try again.'' @ CRLF
                              @ ''Username: '')))
     \<and> RunAuth_compared cfg s
         = (if active s
            then until_match (u, p)
                   (take 3 (spec_submitted (telnet_mode s) (iac_state s) (rx s)))
            else [])
     \<and> (authenticated (RunAuth cfg s)
           \<longleftrightarrow> active s
               \<and> (u, p) \<in> set (take 3 (spec_submitted (telnet_mode s) (iac_state s) (rx s))))
     \<and> auth_attempts (RunAuth cfg s)
         = (if active s
            then length (takeWhile (\<lambda>q. q \<noteq> (u, p))
                           (take 3 (spec_submitted (telnet_mode s) (iac_state s) (rx s))))
            else 0)"
proof -
  let ?s0 = "SessionWrite s ''Username: ''"
  let ?c = "RunAuth_compared cfg s"
  let ?sub = "take 3 (spec_submitted (telnet_mode s) (iac_state s) (rx s))"
  have s0: "\<not> authenticated ?s0" "auth_attempts ?s0 = 0"
    using assms(3,4) by (simp_all add: SessionWrite_def)
  note lc = RunAuth_loop_compared [OF assms(1,2), of AuthLocals_init ?s0]
  have a: "authenticated (RunAuth cfg s) \<longleftrightarrow> (u, p) \<in> set ?c"
    and b: "length ?c \<le> 3"
    and c: "auth_attempts (RunAuth cfg s) = length (filter (\<lambda>q. q \<noteq> (u, p)) ?c)"
    using lc s0 by (simp_all add: RunAuth_def RunAuth_compared_def kMaxAttempts_def)
  have d: "\<not> authenticated (RunAuth cfg s)" if three: "auth_attempts (RunAuth cfg s) = 3"
  proof
    assume "authenticated (RunAuth cfg s)"
    with a have "(u, p) \<in> set ?c" by simp
    then have "length (filter (\<lambda>q. q \<noteq> (u, p)) ?c) < length ?c"
      by (rule length_filter_less) simp
    with b c three show False by simp
  qed
  have e: "RunAuth_loop cfg l t = t \<and> auth_compared cfg l t = []"
    if "kMaxAttempts \<le> auth_attempts t" for l t
  proof
    show "RunAuth_loop cfg l t = t"
      using that by (subst RunAuth_loop.simps) simp
    show "auth_compared cfg l t = []"
      using that by (subst auth_compared.simps) simp
  qed
  have f: "\<exists>l' t'. RunAuth_step cfg l t b = Continue l' t'
              \<and> phase l' = kUser \<and> buf_pos l' = 0
              \<and> authenticated t' = authenticated t
              \<and> auth_attempts t' = auth_attempts t + 1
              \<and> (write_fn t \<noteq> None \<longrightarrow>
                    tx t' = tx t @ CRLF @ ''Invalid credentials. Try again.'' @ CRLF
                              @ ''Username: '')"
    if "auth_submitted l t b = Some q" "q \<noteq> (u, p)" "auth_attempts t + 1 < kMaxAttempts"
    for l t b q
    using RunAuth_step_cases [OF assms(1,2), of l t b] that by auto
  have g: "?c = (if active s then until_match (u, p) ?sub else [])"
    using auth_compared_spec [OF assms(1,2) AuthLocals_init_entry(1), of ?s0] s0
    by (simp add: RunAuth_compared_def AuthLocals_init_entry(2) SessionWrite_link
        spec_submitted_def kMaxAttempts_def)
  have h: "authenticated (RunAuth cfg s) \<longleftrightarrow> active s \<and> (u, p) \<in> set ?sub"
    using a g by (simp add: until_match_set)
  have i: "auth_attempts (RunAuth cfg s)
         = (if active s then length (takeWhile (\<lambda>q. q \<noteq> (u, p)) ?sub) else 0)"
    using c g by (simp add: until_match_filter)
  have old: "(authenticated (RunAuth cfg s) \<longleftrightarrow> (u, p) \<in> set (RunAuth_compared cfg s))
     \<and> length (RunAuth_compared cfg s) \<le> 3
     \<and> auth_attempts (RunAuth cfg s)
         = length (filter (\<lambda>q. q \<noteq> (u, p)) (RunAuth_compared cfg s))
     \<and> (auth_attempts (RunAuth cfg s) = 3 \<longrightarrow> \<not> authenticated (RunAuth cfg s))
     \<and> (\<forall>l t. kMaxAttempts \<le> auth_attempts t \<longrightarrow>
           RunAuth_loop cfg l t = t \<and> auth_compared cfg l t = [])
     \<and> (\<forall>l t b q. auth_submitted l t b = Some q \<and> q \<noteq> (u, p)
                    \<and> auth_attempts t + 1 < kMaxAttempts \<longrightarrow>
           (\<exists>l' t'. RunAuth_step cfg l t b = Continue l' t'
              \<and> phase l' = kUser \<and> buf_pos l' = 0
              \<and> authenticated t' = authenticated t
              \<and> auth_attempts t' = auth_attempts t + 1
              \<and> (write_fn t \<noteq> None \<longrightarrow>
                    tx t' = tx t @ CRLF @ ''Invalid credentials. Try again.'' @ CRLF
                              @ ''Username: '')))"
    using a b c d e f by blast
  from old g h i show ?thesis
    by (elim conjE, intro conjI) assumption+
qed

theorem RunAuth_spec_witness:
  "username admin_config = Some ''admin''
   \<and> password admin_config = Some ''secret''
   \<and> \<not> authenticated (telnet_session (''admin'' @ CRLF @ ''secret'' @ CRLF))
   \<and> auth_attempts (telnet_session (''admin'' @ CRLF @ ''secret'' @ CRLF)) = 0
   \<and> RunAuth_compared admin_config (telnet_session (''admin'' @ CRLF @ ''secret'' @ CRLF))
       = [(''admin'', ''secret'')]
   \<and> authenticated (RunAuth admin_config (telnet_session (''admin'' @ CRLF @ ''secret'' @ CRLF)))
   \<and> RunAuth_compared admin_config (telnet_session (''admin'' @ CRLF @ ''wrong'' @ CRLF))
       = [(''admin'', ''wrong'')]
   \<and> \<not> authenticated (RunAuth admin_config (telnet_session (''admin'' @ CRLF @ ''wrong'' @ CRLF)))
   \<and> auth_attempts (RunAuth admin_config (telnet_session (''admin'' @ CRLF @ ''wrong'' @ CRLF)))
       = 1
   \<and> tx (RunAuth admin_config (telnet_session (''admin'' @ CRLF @ ''wrong'' @ CRLF)))
       = ''Username: admin'' @ CRLF @ ''Password: *****'' @ CRLF
           @ ''Invalid credentials. Try again.'' @ CRLF @ ''Username: ''
   \<and> spec_submitted True kNormal (''ADMIN-admin-01'' @ CRLF @ ''S3CR3T secret!'' @ CRLF)
       = [(''ADMIN-admin-01'', ''S3CR3T secret!'')]
   \<and> RunAuth_compared admin_config
         (telnet_session (''ADMIN-admin-01'' @ CRLF @ ''S3CR3T secret!'' @ CRLF))
       = [(''ADMIN-admin-01'', ''S3CR3T secret!'')]
   \<and> \<not> authenticated (RunAuth admin_config
         (telnet_session (''ADMIN-admin-01'' @ CRLF @ ''S3CR3T secret!'' @ CRLF)))
   \<and> auth_attempts (RunAuth admin_config
         (telnet_session (''ADMIN-admin-01'' @ CRLF @ ''S3CR3T secret!'' @ CRLF))) = 1
   \<and> spec_submitted True kNormal
         ([CHR 0xFF, CHR 0xFB, CHR 0x01] @ ''ad'' @ [CHR 0x00, CHR 0x07, CHR 0x1B] @ ''mx''
            @ [CHR 0x7F] @ ''in'' @ [CHR 0x0D, CHR 0x00] @ ''secret'' @ [CHR 0x0A])
       = [(''admin'', ''secret'')]
   \<and> authenticated (RunAuth admin_config
         (telnet_session
            ([CHR 0xFF, CHR 0xFB, CHR 0x01] @ ''ad'' @ [CHR 0x00, CHR 0x07, CHR 0x1B] @ ''mx''
               @ [CHR 0x7F] @ ''in'' @ [CHR 0x0D, CHR 0x00] @ ''secret'' @ [CHR 0x0A])))
   \<and> auth_attempts (RunAuth admin_config
         (telnet_session
            ([CHR 0xFF, CHR 0xFB, CHR 0x01] @ ''ad'' @ [CHR 0x00, CHR 0x07, CHR 0x1B] @ ''mx''
               @ [CHR 0x7F] @ ''in'' @ [CHR 0x0D, CHR 0x00] @ ''secret'' @ [CHR 0x0A]))) = 0"
proof -
  have c: "username admin_config = Some ''admin''" "password admin_config = Some ''secret''"
    by (simp_all add: admin_config_def)
  have s: "\<not> authenticated (telnet_session i)" "auth_attempts (telnet_session i) = 0" for i
    by (simp_all add: telnet_session_def Session_default_def)
  have v: "active (telnet_session i)" "telnet_mode (telnet_session i)"
    "iac_state (telnet_session i) = kNormal" "rx (telnet_session i) = i" for i
    by (simp_all add: telnet_session_def Session_default_def)
  have good: "RunAuth_compared admin_config
                (telnet_session (''admin'' @ CRLF @ ''secret'' @ CRLF))
              = [(''admin'', ''secret'')]"
    by code_simp
  have bad: "RunAuth_compared admin_config
               (telnet_session (''admin'' @ CRLF @ ''wrong'' @ CRLF))
             = [(''admin'', ''wrong'')]"
    by code_simp
  have out: "tx (RunAuth admin_config (telnet_session (''admin'' @ CRLF @ ''wrong'' @ CRLF)))
       = ''Username: admin'' @ CRLF @ ''Password: *****'' @ CRLF
           @ ''Invalid credentials. Try again.'' @ CRLF @ ''Username: ''"
    by code_simp
  have upper: "spec_submitted True kNormal (''ADMIN-admin-01'' @ CRLF @ ''S3CR3T secret!'' @ CRLF)
       = [(''ADMIN-admin-01'', ''S3CR3T secret!'')]"
    by code_simp
  have edited: "spec_submitted True kNormal
         ([CHR 0xFF, CHR 0xFB, CHR 0x01] @ ''ad'' @ [CHR 0x00, CHR 0x07, CHR 0x1B] @ ''mx''
            @ [CHR 0x7F] @ ''in'' @ [CHR 0x0D, CHR 0x00] @ ''secret'' @ [CHR 0x0A])
       = [(''admin'', ''secret'')]"
    by code_simp
  have first: "authenticated (RunAuth admin_config
                  (telnet_session (''admin'' @ CRLF @ ''secret'' @ CRLF)))
      \<and> \<not> authenticated (RunAuth admin_config
                  (telnet_session (''admin'' @ CRLF @ ''wrong'' @ CRLF)))
      \<and> auth_attempts (RunAuth admin_config
                  (telnet_session (''admin'' @ CRLF @ ''wrong'' @ CRLF))) = 1"
    using RunAuth_spec [OF c s, of "''admin'' @ CRLF @ ''secret'' @ CRLF"]
      RunAuth_spec [OF c s, of "''admin'' @ CRLF @ ''wrong'' @ CRLF"]
      good bad
    by simp
  have second: "RunAuth_compared admin_config
         (telnet_session (''ADMIN-admin-01'' @ CRLF @ ''S3CR3T secret!'' @ CRLF))
       = [(''ADMIN-admin-01'', ''S3CR3T secret!'')]
      \<and> \<not> authenticated (RunAuth admin_config
         (telnet_session (''ADMIN-admin-01'' @ CRLF @ ''S3CR3T secret!'' @ CRLF)))
      \<and> auth_attempts (RunAuth admin_config
         (telnet_session (''ADMIN-admin-01'' @ CRLF @ ''S3CR3T secret!'' @ CRLF))) = 1"
    using RunAuth_spec [OF c s, of "''ADMIN-admin-01'' @ CRLF @ ''S3CR3T secret!'' @ CRLF"]
      upper
    by (simp add: v)
  have third: "authenticated (RunAuth admin_config
         (telnet_session
            ([CHR 0xFF, CHR 0xFB, CHR 0x01] @ ''ad'' @ [CHR 0x00, CHR 0x07, CHR 0x1B] @ ''mx''
               @ [CHR 0x7F] @ ''in'' @ [CHR 0x0D, CHR 0x00] @ ''secret'' @ [CHR 0x0A])))
      \<and> auth_attempts (RunAuth admin_config
         (telnet_session
            ([CHR 0xFF, CHR 0xFB, CHR 0x01] @ ''ad'' @ [CHR 0x00, CHR 0x07, CHR 0x1B] @ ''mx''
               @ [CHR 0x7F] @ ''in'' @ [CHR 0x0D, CHR 0x00] @ ''secret'' @ [CHR 0x0A]))) = 0"
    using RunAuth_spec [OF c s, of "[CHR 0xFF, CHR 0xFB, CHR 0x01] @ ''ad''
        @ [CHR 0x00, CHR 0x07, CHR 0x1B] @ ''mx'' @ [CHR 0x7F] @ ''in'' @ [CHR 0x0D, CHR 0x00]
        @ ''secret'' @ [CHR 0x0A]"]
      edited
    by (simp add: v)
  show ?thesis
    using c s good bad out upper edited first second third
    by simp
qed

end
